theory Spec2Isabelle
  imports Main
begin

section \<open>C integer types used by the Cython modules\<close>

text \<open>
  The native modules declare their arithmetic variables as C \<^verbatim>\<open>int\<close> (32 bit) and
  C \<^verbatim>\<open>long\<close> (64 bit). A Python integer assigned to such a variable is converted and
  the conversion raises \<^verbatim>\<open>OverflowError\<close> when the value does not fit; arithmetic
  on the C variables wraps around (two's complement).
\<close>

definition INT_MIN :: int where "INT_MIN = - (2 ^ 31)"
definition INT_MAX :: int where "INT_MAX = 2 ^ 31 - 1"
definition LONG_MIN :: int where "LONG_MIN = - (2 ^ 63)"
definition LONG_MAX :: int where "LONG_MAX = 2 ^ 63 - 1"

definition wrap_int :: "int \<Rightarrow> int" where
  "wrap_int x = (x + 2 ^ 31) mod 2 ^ 32 - 2 ^ 31"

definition wrap_long :: "int \<Rightarrow> int" where
  "wrap_long x = (x + 2 ^ 63) mod 2 ^ 64 - 2 ^ 63"

datatype error =
    OverflowError
  | KeyError
  | ZeroDivisionError
  | DigitsStoreOutOfBounds int
  | DigitsLoadOutOfBounds int
  | DigitsUninitialised int
  | SymbolsIndexOutOfBounds int

definition to_c_int :: "int \<Rightarrow> error + int" where
  "to_c_int x = (if INT_MIN \<le> x \<and> x \<le> INT_MAX then Inr x else Inl OverflowError)"

definition to_c_long :: "int \<Rightarrow> error + int" where
  "to_c_long x = (if LONG_MIN \<le> x \<and> x \<le> LONG_MAX then Inr x else Inl OverflowError)"

section \<open>Loops\<close>

text \<open>
  \<^verbatim>\<open>for i in range(a, b): body\<close> over a loop state: \<open>for_range\<close> runs the body for
  the indices \<open>i, i + 1, ...\<close> a given number of times and stops at the first error;
  \<open>py_range a b\<close> runs it \<open>b - a\<close> times (not at all when \<open>b \<le> a\<close>).
\<close>

fun for_range :: "int \<Rightarrow> nat \<Rightarrow> (int \<Rightarrow> 's \<Rightarrow> error + 's) \<Rightarrow> 's \<Rightarrow> error + 's" where
  "for_range i 0 body s = Inr s"
| "for_range i (Suc c) body s =
     (case body i s of Inl e \<Rightarrow> Inl e | Inr s' \<Rightarrow> for_range (i + 1) c body s')"

definition py_range :: "int \<Rightarrow> int \<Rightarrow> (int \<Rightarrow> 's \<Rightarrow> error + 's) \<Rightarrow> 's \<Rightarrow> error + 's" where
  "py_range a b body s = for_range a (nat (b - a)) body s"

section \<open>The transition codec (native/encoder.pyx)\<close>

abbreviation (input) HALT_STATE_C :: int where "HALT_STATE_C \<equiv> 0"
abbreviation (input) MOVE_L_C :: int where "MOVE_L_C \<equiv> - 1"
abbreviation (input) MOVE_R_C :: int where "MOVE_R_C \<equiv> 1"
abbreviation (input) MOVE_N_C :: int where "MOVE_N_C \<equiv> 0"
abbreviation (input) NUM_SYMBOLS_C :: int where "NUM_SYMBOLS_C \<equiv> 2"

definition SYMBOLS_PY :: "string list" where
  "SYMBOLS_PY = [''0'', ''1'']"

text \<open>
  A transition is the tuple \<open>(next_state, write_symbol, move_code)\<close>; a transition table
  is the dictionary from \<open>(state, symbol)\<close> to transitions.
\<close>

type_synonym transition = "int \<times> string \<times> int"
type_synonym tm_table = "(int \<times> string) \<rightharpoonup> transition"

text \<open>
  \<^verbatim>\<open>_encode_transition_cy\<close>: all operands are C ints, so the result is the
  mathematical value wrapped to 32 bits.
\<close>

definition encode_transition_cy :: "int \<Rightarrow> string \<Rightarrow> int \<Rightarrow> int \<Rightarrow> int" where
  "encode_transition_cy next_state_c write_symbol_b move_code_c n_states =
     (if next_state_c = HALT_STATE_C then
        (if write_symbol_b = ''0'' then 0 else 1)
      else
        let write_idx = (if write_symbol_b = ''0'' then 0 else 1);
            move_idx = (if move_code_c = MOVE_L_C then 0 else 1)
        in wrap_int (2 + (next_state_c - 1) * (NUM_SYMBOLS_C * 2) + (write_idx * 2 + move_idx)))"

text \<open>The body of the inner loop of \<^verbatim>\<open>tm_to_int\<close>; the loop state is \<open>number\<close>.\<close>

definition tm_to_int_body :: "tm_table \<Rightarrow> int \<Rightarrow> int \<Rightarrow> int \<Rightarrow> int \<Rightarrow> int \<Rightarrow> error + int" where
  "tm_to_int_body tm_table n_states base state sym_idx number =
     (case tm_table (state, SYMBOLS_PY ! nat sym_idx) of
        None \<Rightarrow> Inl KeyError
      | Some (ns, ws, mv) \<Rightarrow>
          (case to_c_int ns of
             Inl e \<Rightarrow> Inl e
           | Inr next_state_c \<Rightarrow>
               let write_symbol_b = (if ws = ''0'' then ''0'' else ''1'') in
               (case to_c_int mv of
                  Inl e \<Rightarrow> Inl e
                | Inr move_code_c \<Rightarrow>
                    let code = encode_transition_cy next_state_c write_symbol_b move_code_c n_states
                    in Inr (wrap_long (number * base + code)))))"

definition tm_to_int :: "tm_table \<Rightarrow> int \<Rightarrow> error + int" where
  "tm_to_int tm_table n_states_py =
     (case to_c_int n_states_py of
        Inl e \<Rightarrow> Inl e
      | Inr n_states \<Rightarrow>
          let base = wrap_int (4 * n_states + 2) in
          py_range 1 (wrap_int (n_states + 1))
            (\<lambda>state. py_range 0 NUM_SYMBOLS_C
               (\<lambda>sym_idx. tm_to_int_body tm_table n_states base state sym_idx))
            0)"

text \<open>
  The digit buffer \<^verbatim>\<open>cdef int[20] digits\<close>: twenty cells, none initialised. The module
  is compiled with \<^verbatim>\<open>boundscheck=False\<close>, so an index outside \<open>0..19\<close> is an access
  outside the array; the model reports it as an error value that names the index.
\<close>

definition digits_store :: "int option list \<Rightarrow> int \<Rightarrow> int \<Rightarrow> error + int option list" where
  "digits_store digits i v =
     (if 0 \<le> i \<and> i < 20 then Inr (digits[nat i := Some v])
      else Inl (DigitsStoreOutOfBounds i))"

definition digits_load :: "int option list \<Rightarrow> int \<Rightarrow> error + int" where
  "digits_load digits i =
     (if 0 \<le> i \<and> i < 20 then
        (case digits ! nat i of None \<Rightarrow> Inl (DigitsUninitialised i) | Some v \<Rightarrow> Inr v)
      else Inl (DigitsLoadOutOfBounds i))"

text \<open>
  The body of the digit loop; the loop state is \<open>(digits, remainder)\<close>. The operators
  \<^verbatim>\<open>%\<close> and \<^verbatim>\<open>//\<close> have Python semantics (the module does not set cdivision):
  they round towards minus infinity and raise on a zero divisor.
\<close>

definition extract_digit ::
  "int \<Rightarrow> int \<Rightarrow> int option list \<times> int \<Rightarrow> error + int option list \<times> int" where
  "extract_digit base i s =
     (case s of (digits, remainder) \<Rightarrow>
        if base = 0 then Inl ZeroDivisionError
        else
          (case digits_store digits i (wrap_int (remainder mod base)) of
             Inl e \<Rightarrow> Inl e
           | Inr digits' \<Rightarrow> Inr (digits', remainder div base)))"

text \<open>
  The body of the inner table loop; the loop state is \<open>(tm_table, current_digit_idx)\<close>.
  In the active branch \<open>code \<ge> 2\<close>, so every intermediate value lies between \<open>0\<close> and
  \<open>code\<close> and no C operation wraps.
\<close>

definition decode_entry ::
  "int option list \<Rightarrow> int \<Rightarrow> int \<Rightarrow> tm_table \<times> int \<Rightarrow> error + tm_table \<times> int" where
  "decode_entry digits state sym_idx_c s =
     (case s of (tm_table, current_digit_idx) \<Rightarrow>
        (case digits_load digits current_digit_idx of
           Inl e \<Rightarrow> Inl e
         | Inr code \<Rightarrow>
             let current_digit_idx' = wrap_int (current_digit_idx - 1);
                 key_tuple = (state, SYMBOLS_PY ! nat sym_idx_c)
             in
               if code < NUM_SYMBOLS_C then
                 (if code < 0 then Inl (SymbolsIndexOutOfBounds code)
                  else Inr (tm_table(key_tuple \<mapsto> (HALT_STATE_C, SYMBOLS_PY ! nat code, MOVE_N_C)),
                            current_digit_idx'))
               else
                 let offset_code = code - NUM_SYMBOLS_C;
                     combos_per_state_action = NUM_SYMBOLS_C * 2;
                     state_offset_idx = offset_code div combos_per_state_action;
                     inner_combo_idx = offset_code mod combos_per_state_action;
                     next_state_c = state_offset_idx + 1;
                     write_idx_c = inner_combo_idx div 2;
                     move_idx_c = inner_combo_idx mod 2;
                     write_symbol_py = SYMBOLS_PY ! nat write_idx_c;
                     move_code_c = (if move_idx_c = 0 then MOVE_L_C else MOVE_R_C)
                 in Inr (tm_table(key_tuple \<mapsto> (next_state_c, write_symbol_py, move_code_c)),
                         current_digit_idx')))"

definition int_to_tm_table :: "int \<Rightarrow> int \<Rightarrow> error + tm_table" where
  "int_to_tm_table number_py n_states_py =
     (case to_c_long number_py of
        Inl e \<Rightarrow> Inl e
      | Inr number \<Rightarrow>
          (case to_c_int n_states_py of
             Inl e \<Rightarrow> Inl e
           | Inr n_states \<Rightarrow>
               let base = wrap_int (4 * n_states + 2);
                   total_entries = wrap_int (2 * n_states)
               in
                 (case py_range 0 total_entries (extract_digit base) (replicate 20 None, number) of
                    Inl e \<Rightarrow> Inl e
                  | Inr (digits, remainder) \<Rightarrow>
                      (case py_range 1 (wrap_int (n_states + 1))
                              (\<lambda>state. py_range 0 NUM_SYMBOLS_C (decode_entry digits state))
                              (Map.empty, wrap_int (total_entries - 1)) of
                         Inl e \<Rightarrow> Inl e
                       | Inr (tm_table, current_digit_idx) \<Rightarrow> Inr tm_table))))"

section \<open>The codec as the specification words it\<close>

text \<open>
  The digit decoding of the specification: digit \<open>0\<close> and digit \<open>1\<close> are the two
  halting transitions; a digit \<open>d \<ge> 2\<close> gives, with \<open>e = d - 2\<close>, the next state
  \<open>1 + e \<div> 4\<close>, the written symbol of index \<open>(e \<div> 2) mod 2\<close> and the move
  Left when \<open>e\<close> is even, Right when it is odd.
\<close>

definition spec_decode_digit :: "int \<Rightarrow> transition" where
  "spec_decode_digit d =
     (if d = 0 then (0, ''0'', 0)
      else if d = 1 then (0, ''1'', 0)
      else
        let e = d - 2
        in (1 + e div 4, SYMBOLS_PY ! nat ((e div 2) mod 2), if e mod 2 = 0 then - 1 else 1))"

text \<open>
  The digit of \<open>k\<close> for the cell \<open>(state, symbol)\<close>: \<open>k\<close> is read as \<open>2n\<close> digits in base
  \<open>4n + 2\<close>, most significant first, and the cell's digit stands at position
  \<open>2 (state - 1) + symbol_index\<close>.
\<close>

definition spec_digit :: "int \<Rightarrow> int \<Rightarrow> int \<Rightarrow> int \<Rightarrow> int" where
  "spec_digit k n state symbol_index =
     (k div (4 * n + 2) ^ nat (2 * n - 1 - (2 * (state - 1) + symbol_index))) mod (4 * n + 2)"

text \<open>The table whose cell \<open>(s, symbol i)\<close> is decoded from the digit \<open>dg s i\<close>.\<close>

definition table_of_digits :: "(int \<Rightarrow> int \<Rightarrow> int) \<Rightarrow> int \<Rightarrow> tm_table" where
  "table_of_digits dg n =
     (\<lambda>(s, sy). if 1 \<le> s \<and> s \<le> n then
                    (if sy = ''0'' then Some (spec_decode_digit (dg s 0))
                     else if sy = ''1'' then Some (spec_decode_digit (dg s 1))
                     else None)
                  else None)"

text \<open>
  A valid transition table for \<open>n\<close> states: exactly the keys \<open>(state, symbol)\<close> with
  \<open>state\<close> in \<open>1..n\<close> and \<open>symbol\<close> one of \<^verbatim>\<open>'0'\<close>, \<^verbatim>\<open>'1'\<close>; a transition into
  the halt state \<open>0\<close> has move None (\<open>0\<close>), a transition into an active state
  \<open>1..n\<close> has move Left (\<open>-1\<close>) or Right (\<open>1\<close>); the written symbol is a symbol.
\<close>

definition valid_transition :: "int \<Rightarrow> transition \<Rightarrow> bool" where
  "valid_transition n tr =
     (case tr of (ns, ws, mv) \<Rightarrow>
        (ws = ''0'' \<or> ws = ''1'') \<and>
        ((ns = 0 \<and> mv = 0) \<or> (1 \<le> ns \<and> ns \<le> n \<and> (mv = - 1 \<or> mv = 1))))"

definition valid_key :: "int \<Rightarrow> int \<times> string \<Rightarrow> bool" where
  "valid_key n key = (case key of (s, sy) \<Rightarrow> 1 \<le> s \<and> s \<le> n \<and> (sy = ''0'' \<or> sy = ''1''))"

definition valid_table :: "int \<Rightarrow> tm_table \<Rightarrow> bool" where
  "valid_table n t =
     (\<forall>key. if valid_key n key
            then (\<exists>tr. t key = Some tr \<and> valid_transition n tr)
            else t key = None)"

text \<open>
  The code \<^verbatim>\<open>tm_to_int\<close> computes for one table entry, the value it accumulates
  when no operation wraps (Horner's rule over the entries in loop order), and the code
  of the entry at position \<open>p\<close> of that order.
\<close>

definition transition_code :: "int \<Rightarrow> transition \<Rightarrow> int" where
  "transition_code n tr =
     (case tr of (ns, ws, mv) \<Rightarrow>
        encode_transition_cy ns (if ws = ''0'' then ''0'' else ''1'') mv n)"

fun horner :: "(nat \<Rightarrow> int) \<Rightarrow> int \<Rightarrow> nat \<Rightarrow> int" where
  "horner c B 0 = 0"
| "horner c B (Suc m) = horner c B m * B + c m"

definition pos_code :: "tm_table \<Rightarrow> int \<Rightarrow> nat \<Rightarrow> int" where
  "pos_code t n p = transition_code n (the (t (1 + int (p div 2), SYMBOLS_PY ! (p mod 2))))"

text \<open>The seven-state table all of whose entries are \<open>(7, '1', Right)\<close>.\<close>

definition t7 :: tm_table where
  "t7 = (\<lambda>key. if valid_key 7 key then Some (7, ''1'', 1) else None)"

text \<open>A one-state table: on \<^verbatim>\<open>'0'\<close> write \<^verbatim>\<open>'1'\<close> and move right; on \<^verbatim>\<open>'1'\<close> halt.\<close>

definition t1_example :: tm_table where
  "t1_example = [(1, ''0'') \<mapsto> (1, ''1'', 1), (1, ''1'') \<mapsto> (0, ''1'', 0)]"

section \<open>The simulator step and the runtime filters (native/turing_machine_ext.pyx)\<close>

text \<open>
  Modelled from the spec: the \<^verbatim>\<open>TuringMachine\<close> object the native functions receive
  (its class and \<^verbatim>\<open>tm_constants\<close> are not among the source files). The record has the
  attributes the Cython code reads and writes, under their names; the two filter
  attributes that the code creates on first use (\<^verbatim>\<open>hasattr\<close>) are options. The halt
  state is \<open>0\<close>. The tape is a \<^verbatim>\<open>defaultdict\<close>: \<open>tape\<close> holds its stored items, a cell
  absent from it reads as the blank symbol, and reading an absent cell stores the blank
  symbol there, as \<^verbatim>\<open>defaultdict.__getitem__\<close> does.
\<close>

abbreviation (input) HALT_STATE :: int where "HALT_STATE \<equiv> 0"

type_synonym config = "int \<times> int \<times> (int \<times> string) set"

record tm =
  current_state :: int
  transition_table :: tm_table
  tape :: "int \<rightharpoonup> string"
  head_position :: int
  blank_symbol :: string
  min_visited :: int
  max_visited :: int
  steps_taken :: int
  num_states :: int
  escapee_seen_positions :: "int set option"
  escapee_blank_run_count :: int
  cycle_history :: "config list option"

text \<open>The content of a cell, and \<^verbatim>\<open>tape[pos]\<close> with its effect on the stored items.\<close>

definition cell_of :: "string \<Rightarrow> (int \<rightharpoonup> string) \<Rightarrow> int \<Rightarrow> string" where
  "cell_of blank items pos = (case items pos of None \<Rightarrow> blank | Some s \<Rightarrow> s)"

definition read_cell :: "tm \<Rightarrow> int \<Rightarrow> string" where
  "read_cell tm_obj pos = cell_of (blank_symbol tm_obj) (tape tm_obj) pos"

definition tape_get :: "tm \<Rightarrow> int \<Rightarrow> string \<times> tm" where
  "tape_get tm_obj pos =
     (case tape tm_obj pos of
        Some s \<Rightarrow> (s, tm_obj)
      | None \<Rightarrow> (blank_symbol tm_obj,
                 tm_obj\<lparr>tape := (tape tm_obj)(pos \<mapsto> blank_symbol tm_obj)\<rparr>))"

text \<open>
  \<^verbatim>\<open>cython_step\<close> returns its verdict (\<open>1\<close> continue, \<open>0\<close> halt) or raises, and mutates the
  object: the model returns the verdict or the error together with the object after
  the call. \<^verbatim>\<open>current_state\<close> and \<^verbatim>\<open>head_position\<close> are read into C ints.
\<close>

definition cython_step :: "tm \<Rightarrow> (error + int) \<times> tm" where
  "cython_step tm_obj =
     (case to_c_int (current_state tm_obj) of
        Inl e \<Rightarrow> (Inl e, tm_obj)
      | Inr current_state_c \<Rightarrow>
          (case to_c_int (head_position tm_obj) of
             Inl e \<Rightarrow> (Inl e, tm_obj)
           | Inr head_position_c \<Rightarrow>
               if current_state_c = HALT_STATE then (Inr 0, tm_obj)
               else
                 (case tape_get tm_obj head_position_c of
                    (current_symbol, tm1) \<Rightarrow>
                      (case transition_table tm1 (current_state_c, current_symbol) of
                         None \<Rightarrow> (Inr 0, tm1\<lparr>current_state := HALT_STATE\<rparr>)
                       | Some (next_state_c, write_symbol_py, move_code_c) \<Rightarrow>
                           let new_head_position = head_position_c + move_code_c
                           in (Inr (if next_state_c = HALT_STATE then 0 else 1),
                               tm1\<lparr>tape := (tape tm1)(head_position_c \<mapsto> write_symbol_py),
                                   current_state := next_state_c,
                                   head_position := new_head_position,
                                   min_visited := min (min_visited tm1) new_head_position,
                                   max_visited := max (max_visited tm1) new_head_position,
                                   steps_taken := steps_taken tm1 + 1\<rparr>)))))"

definition check_escapee :: "tm \<Rightarrow> (error + bool) \<times> tm" where
  "check_escapee tm_obj =
     (case escapee_seen_positions tm_obj of
        None \<Rightarrow>
          (Inr False,
           tm_obj\<lparr>escapee_seen_positions := Some {head_position tm_obj},
                  escapee_blank_run_count := 0\<rparr>)
      | Some seen_positions \<Rightarrow>
          (case to_c_int (head_position tm_obj) of
             Inl e \<Rightarrow> (Inl e, tm_obj)
           | Inr current_pos \<Rightarrow>
               (case tape_get tm_obj current_pos of
                  (cell, tm1) \<Rightarrow>
                    let is_blank = (cell = blank_symbol tm1);
                        is_new = (current_pos \<notin> seen_positions);
                        tm2 = (if is_blank \<and> is_new
                               then tm1\<lparr>escapee_blank_run_count := escapee_blank_run_count tm1 + 1,
                                        escapee_seen_positions := Some (insert current_pos seen_positions)\<rparr>
                               else tm1\<lparr>escapee_blank_run_count := 0\<rparr>)
                    in (Inr (num_states tm2 < escapee_blank_run_count tm2), tm2))))"

text \<open>\<^verbatim>\<open>deque(maxlen=3).append\<close>: the oldest entries beyond the bound are dropped.\<close>

definition deque_append :: "nat \<Rightarrow> 'a list \<Rightarrow> 'a \<Rightarrow> 'a list" where
  "deque_append maxlen d x = drop (length (d @ [x]) - maxlen) (d @ [x])"

definition check_cycle_two :: "tm \<Rightarrow> bool \<times> tm" where
  "check_cycle_two tm_obj =
     (let history = (case cycle_history tm_obj of None \<Rightarrow> [] | Some h \<Rightarrow> h);
          tape_snapshot = Map.graph (tape tm_obj);
          config = (current_state tm_obj, head_position tm_obj, tape_snapshot);
          history' = deque_append 3 history config
      in (length history' = 3 \<and> history' ! 0 = history' ! 2,
          tm_obj\<lparr>cycle_history := Some history'\<rparr>))"

text \<open>Repeated calls of \<^verbatim>\<open>cython_step\<close> on one object, and a machine that never halts.\<close>

definition cython_steps :: "nat \<Rightarrow> tm \<Rightarrow> tm" where
  "cython_steps m tm_obj = ((\<lambda>t. snd (cython_step t)) ^^ m) tm_obj"

definition never_halts :: "tm \<Rightarrow> bool" where
  "never_halts tm_obj = (\<forall>m. current_state (cython_steps m tm_obj) \<noteq> HALT_STATE)"

text \<open>
  Modelled from the spec: the initial configuration and the run loop of the simulator
  (\<^verbatim>\<open>TuringMachine.__init__\<close> and \<^verbatim>\<open>TuringMachine.run\<close> are not among the source files).
  Initially the tape is blank everywhere, the head is at \<open>0\<close>, the state is \<open>1\<close>,
  \<open>min_visited = max_visited = 0\<close> and no step has been taken. One round of the loop:
  stop with Halted when the state is the halt state; take one step; stop with Timeout
  when the step budget is used up; query the enabled runtime filters, in their order,
  and stop with the reason of the first that returns True.
\<close>

definition initial_tm :: "tm_table \<Rightarrow> int \<Rightarrow> string \<Rightarrow> tm" where
  "initial_tm table n blank =
     \<lparr>current_state = 1, transition_table = table, tape = Map.empty, head_position = 0,
      blank_symbol = blank, min_visited = 0, max_visited = 0, steps_taken = 0,
      num_states = n, escapee_seen_positions = None, escapee_blank_run_count = 0,
      cycle_history = None\<rparr>"

datatype reason = Timeout | Escapee | CycleTwo

datatype outcome = Halted | NonHalting reason | Failed error

datatype runtime_filter = EscapeeFilter | CycleTwoFilter

fun query_filters :: "runtime_filter list \<Rightarrow> tm \<Rightarrow> (error + reason option) \<times> tm" where
  "query_filters [] tm_obj = (Inr None, tm_obj)"
| "query_filters (EscapeeFilter # fs) tm_obj =
     (case check_escapee tm_obj of
        (Inl e, tm1) \<Rightarrow> (Inl e, tm1)
      | (Inr True, tm1) \<Rightarrow> (Inr (Some Escapee), tm1)
      | (Inr False, tm1) \<Rightarrow> query_filters fs tm1)"
| "query_filters (CycleTwoFilter # fs) tm_obj =
     (case check_cycle_two tm_obj of
        (True, tm1) \<Rightarrow> (Inr (Some CycleTwo), tm1)
      | (False, tm1) \<Rightarrow> query_filters fs tm1)"

fun run :: "runtime_filter list \<Rightarrow> nat \<Rightarrow> tm \<Rightarrow> outcome \<times> tm" where
  "run fs 0 tm_obj = (NonHalting Timeout, tm_obj)"
| "run fs (Suc budget) tm_obj =
     (if current_state tm_obj = HALT_STATE then (Halted, tm_obj)
      else
        (case cython_step tm_obj of
           (Inl e, tm1) \<Rightarrow> (Failed e, tm1)
         | (Inr verdict, tm1) \<Rightarrow>
             if budget = 0 then (NonHalting Timeout, tm1)
             else
               (case query_filters fs tm1 of
                  (Inl e, tm2) \<Rightarrow> (Failed e, tm2)
                | (Inr (Some r), tm2) \<Rightarrow> (NonHalting r, tm2)
                | (Inr None, tm2) \<Rightarrow> run fs budget tm2)))"

text \<open>
  The entries of a table are valid for \<open>n\<close> states when every transition it holds is;
  the table need not be total.
\<close>

definition valid_entries :: "int \<Rightarrow> tm_table \<Rightarrow> bool" where
  "valid_entries n table = (\<forall>key tr. table key = Some tr \<longrightarrow> valid_transition n tr)"

text \<open>
  A two-state machine that writes at the cells \<open>0\<close> and \<open>1\<close> and moves back and forth
  between them for ever.
\<close>

definition t_pingpong :: tm_table where
  "t_pingpong = [(1, ''0'') \<mapsto> (2, ''1'', 1), (1, ''1'') \<mapsto> (2, ''1'', 1),
                 (2, ''0'') \<mapsto> (1, ''0'', - 1), (2, ''1'') \<mapsto> (0, ''1'', 0)]"

text \<open>A one-state machine that moves right for ever, writing \<open>1\<close>.\<close>

definition t_runner :: tm_table where
  "t_runner = [(1, ''0'') \<mapsto> (1, ''1'', 1)]"

text \<open>The machine of \<open>t_pingpong\<close> after its first and after its second step, the escapee
  filter queried after each.\<close>

definition tm_query1 :: tm where
  "tm_query1 = snd (check_escapee (snd (cython_step (initial_tm t_pingpong 2 ''0''))))"

definition tm_query2 :: tm where
  "tm_query2 = snd (check_escapee (snd (cython_step tm_query1)))"

text \<open>
  The configuration \<^verbatim>\<open>check_cycle_two\<close> records, and \<open>k\<close> rounds of "one step, then one
  query of the period-2 filter" on one object (the filter runs after every step).
\<close>

definition config_of :: "tm \<Rightarrow> config" where
  "config_of tm_obj = (current_state tm_obj, head_position tm_obj, Map.graph (tape tm_obj))"

fun cycle_queries :: "nat \<Rightarrow> tm \<Rightarrow> tm" where
  "cycle_queries 0 tm_obj = tm_obj"
| "cycle_queries (Suc k) tm_obj =
     snd (check_cycle_two (snd (cython_step (cycle_queries k tm_obj))))"

text \<open>A machine at its initial configuration whose period-2 history is full: it holds
  three configurations, the second of them the present one.\<close>

definition tm_cycle_example :: tm where
  "tm_cycle_example =
     (initial_tm t_pingpong 2 ''0'')\<lparr>cycle_history := Some [(2, 1, {}), (1, 0, {}), (2, 1, {})]\<rparr>"

section \<open>Notions used to prove the filters sound\<close>

text \<open>
  Two machine objects are the same machine at the same configuration when they agree
  on the table, the state, the head position and the content of every cell; the filter
  attributes and the stored-item set of the tape may differ.
\<close>

definition sem_eq :: "tm \<Rightarrow> tm \<Rightarrow> bool" where
  "sem_eq a b =
     (transition_table a = transition_table b \<and> current_state a = current_state b \<and>
      head_position a = head_position b \<and> read_cell a = read_cell b)"

text \<open>
  A runner: the state is in a set \<open>B\<close> of active states that is closed under the
  transitions on the blank symbol, all of which move in the direction \<open>d\<close>, and the cell
  under the head and all the cells beyond it in that direction are blank.
\<close>

definition runner_inv :: "int \<Rightarrow> int set \<Rightarrow> tm \<Rightarrow> bool" where
  "runner_inv d B tm_obj =
     ((d = 1 \<or> d = - 1) \<and> current_state tm_obj \<in> B \<and> 0 \<notin> B \<and>
      (\<forall>s \<in> B. \<exists>s' w. transition_table tm_obj (s, blank_symbol tm_obj) = Some (s', w, d) \<and> s' \<in> B) \<and>
      (\<forall>c. 0 \<le> (c - head_position tm_obj) * d \<longrightarrow> read_cell tm_obj c = blank_symbol tm_obj))"

text \<open>
  What holds of the history of the period-2 filter: every entry is the configuration of
  a machine \<open>x\<close> (with the table and blank symbol of the present one) that reaches the
  present configuration in as many steps as the entry is old; \<open>j\<close> is the number of steps
  taken since the last query. Entries older than the present configuration belong to
  machines that were not halted.
\<close>

definition cyc_rec :: "nat \<Rightarrow> tm \<Rightarrow> config list \<Rightarrow> bool" where
  "cyc_rec j tm_obj h =
     (\<forall>i < length h. \<exists>x.
        h ! i = (current_state x, head_position x, Map.graph (tape x)) \<and>
        blank_symbol x = blank_symbol tm_obj \<and>
        sem_eq (cython_steps (length h - 1 - i + j) x) tm_obj \<and>
        (0 < length h - 1 - i + j \<longrightarrow> current_state x \<noteq> HALT_STATE))"

definition cyc_inv :: "nat \<Rightarrow> tm \<Rightarrow> bool" where
  "cyc_inv j tm_obj = cyc_rec j tm_obj (case cycle_history tm_obj of None \<Rightarrow> [] | Some h \<Rightarrow> h)"

text \<open>
  What holds of the state of the escapee filter after a query at a machine that has not
  halted, with \<open>st\<close> the state, \<open>h\<close> the head position, \<open>f\<close> the cell contents, \<open>lo\<close> and
  \<open>hi\<close> the visited range, \<open>S\<close> the seen-set and \<open>r\<close> the run counter:
  the visited range holds the head and the cell \<open>0\<close> and has two cells at least; the
  cells outside it are blank; \<open>S\<close> lies in it and holds each of its cells but possibly
  \<open>0\<close>; and when \<open>r > 0\<close> the cell under the head is blank and seen, and the \<open>r\<close> counted
  landings came about by transitions on the blank symbol that all moved in one direction
  \<open>d\<close> from states \<open>B\<close>, the head standing at the end of the visited range in that
  direction, with two exceptions for a landing on the cell \<open>0\<close>.
\<close>

definition esc_run ::
  "int \<Rightarrow> tm_table \<Rightarrow> string \<Rightarrow> int \<Rightarrow> int \<Rightarrow> int \<Rightarrow> int \<Rightarrow> int \<Rightarrow> int set \<Rightarrow> bool" where
  "esc_run n table b st h lo hi r S =
     (\<exists>d B. (d = 1 \<or> d = - 1) \<and> B \<subseteq> {1..n} \<and>
        (\<forall>s \<in> B. \<exists>s' w. table (s, b) = Some (s', w, d) \<and> s' \<in> insert st B) \<and>
        int (card B) \<le> r - 1 \<and>
        (st \<in> B \<or> int (card B) = r - 1) \<and>
        ((2 \<le> hi - lo \<and> (d = 1 \<and> h = hi \<or> d = - 1 \<and> h = lo) \<and> (2 \<le> r \<longrightarrow> h - d \<in> S)) \<or>
         (h = 0 \<and> r = 1) \<or>
         (h = 0 \<and> r = 2 \<and> lo < 0 \<and> 0 < hi)))"

definition esc_geom ::
  "int \<Rightarrow> tm_table \<Rightarrow> string \<Rightarrow> int \<Rightarrow> int \<Rightarrow> int \<Rightarrow> int \<Rightarrow> (int \<Rightarrow> string) \<Rightarrow> int \<Rightarrow> int set
     \<Rightarrow> bool" where
  "esc_geom n table b st h lo hi f r S =
     (lo \<le> h \<and> h \<le> hi \<and> lo \<le> 0 \<and> 0 \<le> hi \<and> lo < hi \<and>
      (\<forall>c. c < lo \<or> hi < c \<longrightarrow> f c = b) \<and>
      (\<forall>c \<in> S. lo \<le> c \<and> c \<le> hi) \<and>
      (\<forall>c. lo \<le> c \<and> c \<le> hi \<and> c \<noteq> 0 \<longrightarrow> c \<in> S) \<and>
      (r = 0 \<or> (1 \<le> r \<and> f h = b \<and> h \<in> S \<and> esc_run n table b st h lo hi r S)))"

definition esc_inv :: "int \<Rightarrow> tm \<Rightarrow> bool" where
  "esc_inv n tm_obj =
     (case escapee_seen_positions tm_obj of
        None \<Rightarrow>
          head_position tm_obj = 0 \<and> min_visited tm_obj = 0 \<and> max_visited tm_obj = 0 \<and>
          (\<forall>c. read_cell tm_obj c = blank_symbol tm_obj)
      | Some S \<Rightarrow>
          esc_geom n (transition_table tm_obj) (blank_symbol tm_obj) (current_state tm_obj)
            (head_position tm_obj) (min_visited tm_obj) (max_visited tm_obj) (read_cell tm_obj)
            (escapee_blank_run_count tm_obj) S)"

text \<open>
  What holds throughout a run from the initial configuration of the machine
  \<open>(table, n, blank)\<close>.
\<close>

definition run_common :: "tm_table \<Rightarrow> int \<Rightarrow> string \<Rightarrow> tm \<Rightarrow> bool" where
  "run_common table n blank tm_obj =
     (transition_table tm_obj = table \<and> num_states tm_obj = n \<and> blank_symbol tm_obj = blank \<and>
      0 \<le> current_state tm_obj \<and> current_state tm_obj \<le> n \<and>
      (\<exists>t. sem_eq (cython_steps t (initial_tm table n blank)) tm_obj))"

text \<open>
  What holds at the head of every round of the run loop with the enabled filters \<open>fs\<close>:
  the machine has halted, or the state of each enabled filter is as described above.
\<close>

definition run_inv :: "runtime_filter list \<Rightarrow> tm_table \<Rightarrow> int \<Rightarrow> string \<Rightarrow> tm \<Rightarrow> bool" where
  "run_inv fs table n blank tm_obj =
     (run_common table n blank tm_obj \<and>
      (current_state tm_obj = HALT_STATE \<or>
       ((EscapeeFilter \<in> set fs \<longrightarrow> esc_inv n tm_obj) \<and>
        (CycleTwoFilter \<in> set fs \<longrightarrow> cyc_inv 0 tm_obj))))"

section \<open>Lemmas about the codec\<close>

lemma wrap_int_id: "INT_MIN \<le> x \<Longrightarrow> x \<le> INT_MAX \<Longrightarrow> wrap_int x = x"
  by (simp add: wrap_int_def INT_MIN_def INT_MAX_def)

lemma wrap_long_id: "LONG_MIN \<le> x \<Longrightarrow> x \<le> LONG_MAX \<Longrightarrow> wrap_long x = x"
  by (simp add: wrap_long_def LONG_MIN_def LONG_MAX_def)

lemma for_range_inv:
  assumes "P i s"
    and "\<And>j t. i \<le> j \<Longrightarrow> j < i + int c \<Longrightarrow> P j t \<Longrightarrow> \<exists>t'. body j t = Inr t' \<and> P (j + 1) t'"
  shows "\<exists>s'. for_range i c body s = Inr s' \<and> P (i + int c) s'"
  using assms
proof (induction c arbitrary: i s)
  case 0
  then show ?case by simp
next
  case (Suc c)
  from Suc.prems(2)[of i s] Suc.prems(1)
  obtain t' where t': "body i s = Inr t'" "P (i + 1) t'" by auto
  have "\<exists>s'. for_range (i + 1) c body t' = Inr s' \<and> P (i + 1 + int c) s'"
  proof (rule Suc.IH[OF t'(2)])
    fix j t assume "i + 1 \<le> j" "j < i + 1 + int c" "P j t"
    then show "\<exists>t'. body j t = Inr t' \<and> P (j + 1) t'"
      using Suc.prems(2)[of j t] by simp
  qed
  then show ?case using t' by (simp add: ac_simps)
qed

lemma for_range_add:
  "for_range i (a + b) body s =
     (case for_range i a body s of Inl e \<Rightarrow> Inl e | Inr s' \<Rightarrow> for_range (i + int a) b body s')"
  by (induction a arbitrary: i s) (auto split: sum.splits simp: ac_simps)

lemma digits_store_ok:
  "0 \<le> i \<Longrightarrow> i < 20 \<Longrightarrow> digits_store ds i v = Inr (ds[nat i := Some v])"
  by (simp add: digits_store_def)

lemma extract_digits_ok:
  assumes b: "0 < base" "base \<le> INT_MAX" and c: "c \<le> 20"
  shows "\<exists>ds r. for_range 0 c (extract_digit base) (replicate 20 None, k) = Inr (ds, r) \<and>
           length ds = 20 \<and> r = k div base ^ c \<and>
           (\<forall>i < c. ds ! i = Some ((k div base ^ i) mod base))"
proof -
  let ?P = "\<lambda>j (s :: int option list \<times> int). length (fst s) = 20 \<and> snd s = k div base ^ nat j \<and>
           (\<forall>i < nat j. fst s ! i = Some ((k div base ^ i) mod base))"
  have "\<exists>s'. for_range 0 c (extract_digit base) (replicate 20 None, k) = Inr s' \<and> ?P (0 + int c) s'"
  proof (rule for_range_inv[where P = ?P])
    show "?P 0 (replicate 20 None, k)" by simp
  next
    fix j and t :: "int option list \<times> int"
    assume j: "0 \<le> j" "j < 0 + int c" and P: "?P j t"
    obtain ds r where t: "t = (ds, r)" by (cases t)
    have j20: "j < 20" using j c by simp
    have m: "0 \<le> r mod base" "r mod base < base" using b by simp_all
    have w: "wrap_int (r mod base) = r mod base"
    proof (rule wrap_int_id)
      show "INT_MIN \<le> r mod base" using m by (simp add: INT_MIN_def)
      show "r mod base \<le> INT_MAX" using m b by linarith
    qed
    have nj: "nat (j + 1) = Suc (nat j)" using j by simp
    have r: "r = k div base ^ nat j" using P t by simp
    have "r div base = k div base ^ Suc (nat j)"
    proof -
      have "k div (base ^ nat j * base) = k div base ^ nat j div base"
        using b by (intro zdiv_zmult2_eq) simp
      then show ?thesis unfolding r by (simp add: mult.commute)
    qed
    moreover have "\<forall>i < Suc (nat j). (ds[nat j := Some (r mod base)]) ! i = Some ((k div base ^ i) mod base)"
      using P t r j20 j by (auto simp: less_Suc_eq nth_list_update)
    ultimately show "\<exists>t'. extract_digit base j t = Inr t' \<and> ?P (j + 1) t'"
      using b j j20 P t w nj by (simp add: extract_digit_def digits_store_ok)
  qed
  then show ?thesis by auto
qed

lemma mod4_div2: "(e::int) mod 4 div 2 = e div 2 mod 2"
proof -
  have "e mod (2 * 2) = 2 * (e div 2 mod 2) + e mod 2" by (rule zmod_zmult2_eq) simp
  then have "e mod 4 = 2 * (e div 2 mod 2) + e mod 2" by simp
  then show ?thesis by simp
qed

lemma mod4_mod2: "(e::int) mod 4 mod 2 = e mod 2"
  by (rule mod_mod_cancel) simp

lemma digits_load_ok:
  "0 \<le> idx \<Longrightarrow> idx < 20 \<Longrightarrow> ds ! nat idx = Some code \<Longrightarrow> digits_load ds idx = Inr code"
  by (simp add: digits_load_def)

lemma decode_entry_ok:
  assumes "0 \<le> idx" "idx < 20" "ds ! nat idx = Some code" "0 \<le> code"
  shows "decode_entry ds state j (t, idx) =
           Inr (t((state, SYMBOLS_PY ! nat j) \<mapsto> spec_decode_digit code), wrap_int (idx - 1))"
proof -
  have ld: "digits_load ds idx = Inr code" using assms by (simp add: digits_load_ok)
  consider "code = 0" | "code = 1" | "2 \<le> code" using assms(4) by linarith
  then show ?thesis
  proof cases
    case 1
    then show ?thesis
      by (simp add: decode_entry_def ld spec_decode_digit_def SYMBOLS_PY_def)
  next
    case 2
    then show ?thesis
      by (simp add: decode_entry_def ld spec_decode_digit_def SYMBOLS_PY_def)
  next
    case 3
    then have c: "\<not> code < 2" "code \<noteq> 0" "code \<noteq> 1" by simp_all
    show ?thesis
      unfolding decode_entry_def spec_decode_digit_def Let_def
      by (simp add: ld c mod4_div2 mod4_mod2 add.commute)
  qed
qed

lemma py_range_0_2:
  "py_range 0 2 body s =
     (case body 0 s of Inl e \<Rightarrow> Inl e | Inr s1 \<Rightarrow> body 1 s1)"
  by (simp add: py_range_def numeral_2_eq_2 split: sum.splits)

lemma table_of_digits_step:
  "1 \<le> j \<Longrightarrow> (table_of_digits dg (j - 1))((j, ''0'') \<mapsto> spec_decode_digit (dg j 0),
        (j, ''1'') \<mapsto> spec_decode_digit (dg j 1)) = table_of_digits dg j"
proof (rule ext)
  fix x :: "int \<times> string"
  assume j: "1 \<le> j"
  obtain a b where x: "x = (a, b)" by (cases x)
  have "a < j \<or> a = j \<or> j < a" by linarith
  then show "((table_of_digits dg (j - 1))((j, ''0'') \<mapsto> spec_decode_digit (dg j 0),
        (j, ''1'') \<mapsto> spec_decode_digit (dg j 1))) x = table_of_digits dg j x"
    using j unfolding x by (auto simp: table_of_digits_def)
qed

lemma table_of_digits_0: "n \<le> 0 \<Longrightarrow> table_of_digits dg n = Map.empty"
  by (rule ext) (auto simp: table_of_digits_def)

lemma build_table_ok:
  assumes n: "1 \<le> n" "n \<le> 10" and len: "length ds = 20"
    and ds: "\<And>s i. 1 \<le> s \<Longrightarrow> s \<le> n \<Longrightarrow> i \<in> {0, 1} \<Longrightarrow>
               ds ! nat (2 * n - 1 - (2 * (s - 1) + i)) = Some (dg s i) \<and> 0 \<le> dg s i"
  shows "\<exists>idx. for_range 1 (nat n)
            (\<lambda>state. py_range 0 NUM_SYMBOLS_C (decode_entry ds state))
            (Map.empty, 2 * n - 1) = Inr (table_of_digits dg n, idx)"
proof -
  let ?body = "\<lambda>state. py_range 0 NUM_SYMBOLS_C (decode_entry ds state)"
  let ?P = "\<lambda>j (s :: tm_table \<times> int). fst s = table_of_digits dg (j - 1) \<and> snd s = 2 * n - 1 - 2 * (j - 1)"
  have "\<exists>s'. for_range 1 (nat n) ?body (Map.empty, 2 * n - 1) = Inr s' \<and> ?P (1 + int (nat n)) s'"
  proof (rule for_range_inv[where P = ?P])
    show "?P 1 (Map.empty, 2 * n - 1)" by (simp add: table_of_digits_0)
  next
    fix j and t :: "tm_table \<times> int"
    assume j: "1 \<le> j" "j < 1 + int (nat n)" and P: "?P j t"
    obtain tb idx where t: "t = (tb, idx)" by (cases t)
    have jn: "j \<le> n" using j n by simp
    have idx: "idx = 2 * n - 1 - 2 * (j - 1)" and tb: "tb = table_of_digits dg (j - 1)"
      using P t by simp_all
    have i0: "0 \<le> idx" "idx < 20" "0 \<le> idx - 1" "idx - 1 < 20" using idx j jn n by simp_all
    have d0: "ds ! nat idx = Some (dg j 0)" "0 \<le> dg j 0"
      using ds[of j 0] j jn idx by simp_all
    have "2 * n - 1 - (2 * (j - 1) + 1) = idx - 1" using idx by simp
    then have d1: "ds ! nat (idx - 1) = Some (dg j 1)" "0 \<le> dg j 1"
      using ds[of j 1] j jn by simp_all
    have w0: "wrap_int (idx - 1) = idx - 1" using i0
      by (intro wrap_int_id) (simp_all add: INT_MIN_def INT_MAX_def)
    have w1: "wrap_int (idx - 2) = idx - 2" using i0
      by (intro wrap_int_id) (simp_all add: INT_MIN_def INT_MAX_def)
    have two: "nat 2 = Suc (Suc 0)" by simp
    have "?body j t = Inr ((tb((j, ''0'') \<mapsto> spec_decode_digit (dg j 0),
              (j, ''1'') \<mapsto> spec_decode_digit (dg j 1))), idx - 2)"
      unfolding t py_range_0_2
      by (simp add: decode_entry_ok[OF i0(1,2) d0] w0 decode_entry_ok[OF i0(3,4) d1] w1 SYMBOLS_PY_def)
    then show "\<exists>t'. ?body j t = Inr t' \<and> ?P (j + 1) t'"
      using tb idx j by (simp add: table_of_digits_step)
  qed
  moreover have "1 + int (nat n) - 1 = n" using n by simp
  ultimately show ?thesis by auto
qed

lemma valid_table_entry:
  assumes "valid_table n t" "1 \<le> s" "s \<le> n" "sy = ''0'' \<or> sy = ''1''"
  shows "\<exists>tr. t (s, sy) = Some tr \<and> valid_transition n tr"
proof -
  have "valid_key n (s, sy)" using assms(2-4) by (simp add: valid_key_def)
  moreover have "if valid_key n (s, sy)
            then (\<exists>tr. t (s, sy) = Some tr \<and> valid_transition n tr)
            else t (s, sy) = None"
    using assms(1) unfolding valid_table_def by blast
  ultimately show ?thesis by simp
qed

lemma valid_table_none:
  assumes "valid_table n t" "\<not> valid_key n key"
  shows "t key = None"
proof -
  have "if valid_key n key
            then (\<exists>tr. t key = Some tr \<and> valid_transition n tr)
            else t key = None"
    using assms(1) unfolding valid_table_def by blast
  then show ?thesis using assms(2) by simp
qed

lemma transition_code_halt:
  "transition_code n (0, ws, mv) = (if ws = ''0'' then 0 else 1)"
  by (simp add: transition_code_def encode_transition_cy_def)

lemma transition_code_active:
  assumes "1 \<le> ns" "ns \<le> n" "n \<le> 10"
  shows "transition_code n (ns, ws, mv) =
           2 + (ns - 1) * 4 + ((if ws = ''0'' then 0 else 1) * 2 + (if mv = - 1 then 0 else 1))"
proof -
  define w :: int where "w = (if ws = ''0'' then 0 else 1)"
  define m :: int where "m = (if mv = - 1 then 0 else 1)"
  have wm: "0 \<le> w" "w \<le> 1" "0 \<le> m" "m \<le> 1" by (simp_all add: w_def m_def)
  have nz: "ns \<noteq> 0" using assms by simp
  have "transition_code n (ns, ws, mv) = wrap_int (2 + (ns - 1) * 4 + (w * 2 + m))"
    using nz by (simp add: transition_code_def encode_transition_cy_def w_def m_def)
  also have "\<dots> = 2 + (ns - 1) * 4 + (w * 2 + m)"
    using assms wm by (intro wrap_int_id) (simp_all add: INT_MIN_def INT_MAX_def)
  finally show ?thesis by (simp add: w_def m_def)
qed

lemma quad_decompose:
  fixes q w m :: int
  assumes "0 \<le> w" "w \<le> 1" "0 \<le> m" "m \<le> 1"
  shows "(q * 4 + (w * 2 + m)) div 4 = q"
    and "(q * 4 + (w * 2 + m)) div 2 mod 2 = w"
    and "(q * 4 + (w * 2 + m)) mod 2 = m"
proof -
  have a: "q * 4 + (w * 2 + m) = (w * 2 + m) + q * 4" by simp
  have b: "q * 4 + (w * 2 + m) = m + (q * 2 + w) * 2" by simp
  have r: "0 \<le> w * 2 + m" "w * 2 + m < 4" using assms by simp_all
  show "(q * 4 + (w * 2 + m)) div 4 = q"
    unfolding a using r by simp
  have d2: "(q * 4 + (w * 2 + m)) div 2 = q * 2 + w"
    unfolding b using assms by simp
  show "(q * 4 + (w * 2 + m)) div 2 mod 2 = w"
    unfolding d2 using assms by simp
  have "(m + (q * 2 + w) * 2) mod 2 = m mod 2" by (rule mod_mult_self1)
  then show "(q * 4 + (w * 2 + m)) mod 2 = m"
    unfolding b using assms by simp
qed

lemma transition_code_range:
  assumes "valid_transition n tr" "n \<le> 10" "0 \<le> n"
  shows "0 \<le> transition_code n tr \<and> transition_code n tr < 4 * n + 2"
proof -
  obtain ns ws mv where tr: "tr = (ns, ws, mv)" by (cases tr)
  from assms(1) consider "ns = 0" | "1 \<le> ns" "ns \<le> n"
    by (auto simp: valid_transition_def tr)
  then show ?thesis
  proof cases
    case 1
    then show ?thesis using assms by (auto simp: tr transition_code_halt valid_transition_def)
  next
    case 2
    then show ?thesis unfolding tr
      by (simp add: transition_code_active[OF 2 assms(2)])
  qed
qed

lemma decode_transition_code:
  assumes "valid_transition n tr" "n \<le> 10"
  shows "spec_decode_digit (transition_code n tr) = tr"
proof -
  obtain ns ws mv where tr: "tr = (ns, ws, mv)" by (cases tr)
  have ws: "ws = ''0'' \<or> ws = ''1''" using assms(1) by (simp add: valid_transition_def tr)
  from assms(1) consider "ns = 0" "mv = 0" | "1 \<le> ns" "ns \<le> n" "mv = - 1 \<or> mv = 1"
    by (auto simp: valid_transition_def tr)
  then show ?thesis
  proof cases
    case 1
    then show ?thesis using ws
      by (auto simp: tr transition_code_halt spec_decode_digit_def)
  next
    case 2
    let ?w = "(if ws = ''0'' then 0 else 1) :: int"
    let ?m = "(if mv = - 1 then 0 else 1) :: int"
    define e where "e = (ns - 1) * 4 + (?w * 2 + ?m)"
    have code: "transition_code n tr = 2 + e"
      unfolding tr e_def using transition_code_active[OF 2(1,2) assms(2)] by simp
    have wm: "0 \<le> ?w" "?w \<le> 1" "0 \<le> ?m" "?m \<le> 1" by simp_all
    have e0: "0 \<le> e" using 2 wm unfolding e_def by simp
    have d4: "e div 4 = ns - 1" unfolding e_def by (rule quad_decompose(1)[OF wm])
    have d2: "e div 2 mod 2 = ?w" unfolding e_def by (rule quad_decompose(2)[OF wm])
    have m2: "e mod 2 = ?m" unfolding e_def by (rule quad_decompose(3)[OF wm])
    have ne: "2 + e \<noteq> 0" "2 + e \<noteq> 1" using e0 by simp_all
    have "spec_decode_digit (2 + e) = (1 + e div 4, SYMBOLS_PY ! nat (e div 2 mod 2), if e mod 2 = 0 then - 1 else 1)"
      using ne by (simp add: spec_decode_digit_def Let_def)
    also have "\<dots> = (ns, ws, mv)"
      unfolding d4 d2 m2 using ws 2(3) by (auto simp: SYMBOLS_PY_def)
    finally show ?thesis using code by (simp add: tr)
  qed
qed

lemma spec_decode_digit_valid:
  assumes "0 \<le> d" "d < 4 * n + 2"
  shows "valid_transition n (spec_decode_digit d)"
proof -
  consider "d = 0" | "d = 1" | "2 \<le> d" using assms(1) by linarith
  then show ?thesis
  proof cases
    case 1 then show ?thesis by (simp add: spec_decode_digit_def valid_transition_def)
  next
    case 2 then show ?thesis by (simp add: spec_decode_digit_def valid_transition_def)
  next
    case 3
    define e where "e = d - 2"
    have e: "0 \<le> e" "e < 4 * n" using 3 assms by (simp_all add: e_def)
    have ne: "d \<noteq> 0" "d \<noteq> 1" using 3 by simp_all
    have sd: "spec_decode_digit d = (1 + e div 4, SYMBOLS_PY ! nat (e div 2 mod 2), if e mod 2 = 0 then - 1 else 1)"
      using ne by (simp add: spec_decode_digit_def e_def Let_def)
    have w: "e div 2 mod 2 = 0 \<or> e div 2 mod 2 = 1" by auto
    have w': "SYMBOLS_PY ! nat (e div 2 mod 2) = ''0'' \<or> SYMBOLS_PY ! nat (e div 2 mod 2) = ''1''"
      using w by (auto simp: SYMBOLS_PY_def)
    have s: "0 \<le> e div 4" "e div 4 < n" using e by simp_all
    show ?thesis unfolding sd valid_transition_def using w' s by auto
  qed
qed

lemma transition_code_decode:
  assumes "0 \<le> d" "d < 4 * n + 2" "n \<le> 10"
  shows "transition_code n (spec_decode_digit d) = d"
proof -
  consider "d = 0" | "d = 1" | "2 \<le> d" using assms(1) by linarith
  then show ?thesis
  proof cases
    case 1 then show ?thesis by (simp add: spec_decode_digit_def transition_code_halt)
  next
    case 2 then show ?thesis by (simp add: spec_decode_digit_def transition_code_halt)
  next
    case 3
    define e where "e = d - 2"
    have e: "0 \<le> e" "e < 4 * n" using 3 assms by (simp_all add: e_def)
    have ne: "d \<noteq> 0" "d \<noteq> 1" using 3 by simp_all
    have sd: "spec_decode_digit d = (1 + e div 4, SYMBOLS_PY ! nat (e div 2 mod 2), if e mod 2 = 0 then - 1 else 1)"
      using ne by (simp add: spec_decode_digit_def e_def Let_def)
    have s: "1 \<le> 1 + e div 4" "1 + e div 4 \<le> n" using e by simp_all
    have w: "e div 2 mod 2 = 0 \<or> e div 2 mod 2 = 1" by auto
    have w0: "(if SYMBOLS_PY ! nat (e div 2 mod 2) = ''0'' then 0 else 1) = e div 2 mod 2"
      using w by (auto simp: SYMBOLS_PY_def)
    have m0: "(if (if e mod 2 = 0 then - 1 else 1 :: int) = - 1 then 0 else 1) = e mod 2"
      by auto
    have "transition_code n (spec_decode_digit d) = 2 + (e div 4) * 4 + ((e div 2 mod 2) * 2 + e mod 2)"
      unfolding sd transition_code_active[OF s assms(3)] w0 m0 by simp
    also have "\<dots> = 2 + e"
    proof -
      have "e mod 4 = 2 * (e div 2 mod 2) + e mod 2"
        using zmod_zmult2_eq[of 2 e 2] by simp
      moreover have "e = (e div 4) * 4 + e mod 4" by simp
      ultimately show ?thesis by linarith
    qed
    finally show ?thesis by (simp add: e_def)
  qed
qed

lemma horner_bounds:
  assumes "0 < B" "\<And>p. p < m \<Longrightarrow> 0 \<le> c p \<and> c p < B"
  shows "0 \<le> horner c B m \<and> horner c B m < B ^ m"
  using assms(2)
proof (induction m)
  case 0
  then show ?case by simp
next
  case (Suc m)
  have ih: "0 \<le> horner c B m" "horner c B m < B ^ m" using Suc by simp_all
  have cm: "0 \<le> c m" "c m < B" using Suc.prems[of m] by simp_all
  have "horner c B m + 1 \<le> B ^ m" using ih by simp
  then have "(horner c B m + 1) * B \<le> B ^ m * B" using assms(1) by (intro mult_right_mono) simp_all
  then have "horner c B m * B + B \<le> B ^ m * B" by (simp add: algebra_simps)
  then show ?case using ih cm assms(1) by (simp add: mult.commute)
qed

lemma horner_digit:
  assumes "0 < B" "\<And>p. p < m \<Longrightarrow> 0 \<le> c p \<and> c p < B" "i < m"
  shows "(horner c B m div B ^ i) mod B = c (m - 1 - i)"
  using assms(2,3)
proof (induction m arbitrary: i)
  case 0
  then show ?case by simp
next
  case (Suc m)
  have cm: "0 \<le> c m" "c m < B" using Suc.prems(1)[of m] by simp_all
  show ?case
  proof (cases i)
    case 0
    then show ?thesis using cm by simp
  next
    case (Suc j)
    have j: "j < m" using Suc Suc.prems(2) by simp
    have "(horner c B m * B + c m) div (B * B ^ j) = ((horner c B m * B + c m) div B) div B ^ j"
      using assms(1) by (intro zdiv_zmult2_eq) simp
    also have "(horner c B m * B + c m) div B = horner c B m"
      using cm assms(1) by simp
    finally have "(horner c B (Suc m) div B ^ i) mod B = (horner c B m div B ^ j) mod B"
      by (simp add: Suc)
    also have "\<dots> = c (m - 1 - j)" using Suc.IH[OF _ j] Suc.prems(1) by simp
    finally show ?thesis using Suc j by simp
  qed
qed

lemma horner_of_digits:
  assumes "0 < B" "\<And>p. p < N \<Longrightarrow> c p = (k div B ^ (N - 1 - p)) mod B" "m \<le> N"
  shows "horner c B m = (k div B ^ (N - m)) mod B ^ m"
  using assms(3)
proof (induction m)
  case 0
  then show ?case by simp
next
  case (Suc m)
  define y where "y = k div B ^ (N - Suc m)"
  have "N - m = Suc (N - Suc m)" using Suc.prems by simp
  then have "k div B ^ (N - m) = k div (B ^ (N - Suc m) * B)" by (simp add: mult.commute)
  also have "\<dots> = y div B" unfolding y_def using assms(1) by (intro zdiv_zmult2_eq) simp
  finally have 1: "k div B ^ (N - m) = y div B" .
  have cm: "c m = y mod B" using assms(2)[of m] Suc.prems by (simp add: y_def)
  have "y mod (B * B ^ m) = B * (y div B mod B ^ m) + y mod B"
    using assms(1) by (intro zmod_zmult2_eq) simp
  then show ?case using Suc 1 cm by (simp add: y_def mult.commute)
qed

lemma spec_digit_eq:
  "spec_digit k n s i = (k div (4 * n + 2) ^ nat (2 * n - 1 - (2 * (s - 1) + i))) mod (4 * n + 2)"
  by (simp add: spec_digit_def)

lemma int_to_tm_table_ok:
  assumes n: "1 \<le> n" "n \<le> 10" and k: "LONG_MIN \<le> k" "k \<le> LONG_MAX"
  shows "int_to_tm_table k n = Inr (table_of_digits (spec_digit k n) n)"
proof -
  let ?B = "4 * n + 2"
  have ck: "to_c_long k = Inr k" using k by (simp add: to_c_long_def)
  have cn: "to_c_int n = Inr n" using n by (simp add: to_c_int_def INT_MIN_def INT_MAX_def)
  have wb: "wrap_int (4 * n + 2) = ?B"
    using n by (intro wrap_int_id) (simp_all add: INT_MIN_def INT_MAX_def)
  have wt: "wrap_int (2 * n) = 2 * n"
    using n by (intro wrap_int_id) (simp_all add: INT_MIN_def INT_MAX_def)
  have wn: "wrap_int (n + 1) = n + 1"
    using n by (intro wrap_int_id) (simp_all add: INT_MIN_def INT_MAX_def)
  have wi: "wrap_int (2 * n - 1) = 2 * n - 1"
    using n by (intro wrap_int_id) (simp_all add: INT_MIN_def INT_MAX_def)
  have B: "0 < ?B" "?B \<le> INT_MAX" using n by (simp_all add: INT_MAX_def)
  have c20: "nat (2 * n) \<le> 20" using n by simp
  from extract_digits_ok[OF B c20, of k]
  obtain ds r where ex: "for_range 0 (nat (2 * n)) (extract_digit ?B) (replicate 20 None, k) = Inr (ds, r)"
    and len: "length ds = 20"
    and dig: "\<forall>i < nat (2 * n). ds ! i = Some ((k div ?B ^ i) mod ?B)" by blast
  have dsp: "ds ! nat (2 * n - 1 - (2 * (s - 1) + i)) = Some (spec_digit k n s i) \<and> 0 \<le> spec_digit k n s i"
    if "1 \<le> s" "s \<le> n" "i \<in> {0, 1}" for s i
  proof -
    have "nat (2 * n - 1 - (2 * (s - 1) + i)) < nat (2 * n)" using that by auto
    then show ?thesis using dig B by (simp add: spec_digit_eq)
  qed
  from build_table_ok[OF n len dsp]
  obtain idx where bt: "for_range 1 (nat n)
            (\<lambda>state. py_range 0 NUM_SYMBOLS_C (decode_entry ds state))
            (Map.empty, 2 * n - 1) = Inr (table_of_digits (spec_digit k n) n, idx)" by blast
  show ?thesis
    unfolding int_to_tm_table_def ck cn
    by (simp add: wb wt wn wi py_range_def[of 0 "2 * n"] py_range_def[of 1 "n + 1"] ex bt)
qed

lemma tm_to_int_body_ok:
  assumes "t (s, SYMBOLS_PY ! nat i) = Some tr" "valid_transition n tr" "n \<le> 10"
  shows "tm_to_int_body t n base s i number = Inr (wrap_long (number * base + transition_code n tr))"
proof -
  obtain ns ws mv where tr: "tr = (ns, ws, mv)" by (cases tr)
  have r: "- 1 \<le> mv" "mv \<le> 1" "0 \<le> ns" "ns \<le> 10"
    using assms(2,3) by (auto simp: valid_transition_def tr)
  have c: "to_c_int ns = Inr ns" "to_c_int mv = Inr mv"
    using r by (simp_all add: to_c_int_def INT_MIN_def INT_MAX_def)
  show ?thesis
    unfolding tm_to_int_body_def using assms(1)
    by (simp add: tr c transition_code_def)
qed

lemma tm_to_int_ok:
  assumes n: "1 \<le> n" "n \<le> 10"
    and big: "(4 * n + 2) ^ nat (2 * n) \<le> LONG_MAX"
    and t: "\<And>s sy. 1 \<le> s \<Longrightarrow> s \<le> n \<Longrightarrow> sy = ''0'' \<or> sy = ''1'' \<Longrightarrow>
               \<exists>tr. t (s, sy) = Some tr \<and> valid_transition n tr"
  shows "tm_to_int t n = Inr (horner (pos_code t n) (4 * n + 2) (nat (2 * n)))"
proof -
  let ?B = "4 * n + 2"
  let ?c = "pos_code t n"
  have cn: "to_c_int n = Inr n" using n by (simp add: to_c_int_def INT_MIN_def INT_MAX_def)
  have wb: "wrap_int (4 * n + 2) = ?B"
    using n by (intro wrap_int_id) (simp_all add: INT_MIN_def INT_MAX_def)
  have wn: "wrap_int (n + 1) = n + 1"
    using n by (intro wrap_int_id) (simp_all add: INT_MIN_def INT_MAX_def)
  have B: "0 < ?B" using n by simp
  have entry: "\<exists>tr. t (1 + int (p div 2), SYMBOLS_PY ! (p mod 2)) = Some tr \<and> valid_transition n tr"
    if "p < nat (2 * n)" for p
  proof -
    have "1 + int (p div 2) \<le> n" using that by linarith
    moreover have "SYMBOLS_PY ! (p mod 2) = ''0'' \<or> SYMBOLS_PY ! (p mod 2) = ''1''"
    proof -
      have "p mod 2 = 0 \<or> p mod 2 = 1" by auto
      then show ?thesis by (auto simp: SYMBOLS_PY_def)
    qed
    ultimately show ?thesis using t[of "1 + int (p div 2)" "SYMBOLS_PY ! (p mod 2)"] by simp
  qed
  have crange: "0 \<le> ?c p \<and> ?c p < ?B" if "p < nat (2 * n)" for p
  proof -
    from entry[OF that] obtain tr where
      "t (1 + int (p div 2), SYMBOLS_PY ! (p mod 2)) = Some tr" "valid_transition n tr" by blast
    then show ?thesis using transition_code_range[of n tr] n by (simp add: pos_code_def)
  qed
  have hb: "0 \<le> horner ?c ?B m \<and> horner ?c ?B m < ?B ^ nat (2 * n)" if "m \<le> nat (2 * n)" for m
  proof -
    have "0 \<le> horner ?c ?B m \<and> horner ?c ?B m < ?B ^ m"
      using that crange by (intro horner_bounds[OF B]) simp
    moreover have "?B ^ m \<le> ?B ^ nat (2 * n)" using that B by (intro power_increasing) simp_all
    ultimately show ?thesis by linarith
  qed
  have wl: "wrap_long (horner ?c ?B m) = horner ?c ?B m" if "m \<le> nat (2 * n)" for m
    using hb[OF that] big by (intro wrap_long_id) (simp_all add: LONG_MIN_def)
  let ?body = "\<lambda>state. py_range 0 NUM_SYMBOLS_C (\<lambda>sym_idx. tm_to_int_body t n ?B state sym_idx)"
  let ?P = "\<lambda>j (number :: int). number = horner ?c ?B (nat (2 * (j - 1)))"
  have "\<exists>s'. for_range 1 (nat n) ?body 0 = Inr s' \<and> ?P (1 + int (nat n)) s'"
  proof (rule for_range_inv[where P = ?P])
    show "?P 1 0" by simp
  next
    fix j and number :: int
    assume j: "1 \<le> j" "j < 1 + int (nat n)" and P: "?P j number"
    have jn: "j \<le> n" using j n by simp
    define p where "p = 2 * nat (j - 1)"
    have pn: "nat (2 * (j - 1)) = p" using j by (simp add: p_def nat_mult_distrib)
    have P': "number = horner ?c ?B p" using P unfolding pn .
    have p: "p < nat (2 * n)" "Suc p < nat (2 * n)" "Suc (Suc p) \<le> nat (2 * n)"
      using j jn by (simp_all add: p_def)
    have pj: "1 + int (p div 2) = j" "p mod 2 = 0" "1 + int (Suc p div 2) = j" "Suc p mod 2 = 1"
      using j by (simp_all add: p_def)
    from entry[OF p(1)] obtain tr0 where
      tr0: "t (j, SYMBOLS_PY ! nat 0) = Some tr0" "valid_transition n tr0" using pj by auto
    from entry[OF p(2)] obtain tr1 where
      tr1: "t (j, SYMBOLS_PY ! nat 1) = Some tr1" "valid_transition n tr1" using pj by auto
    have c0: "transition_code n tr0 = ?c p" using tr0 pj by (simp add: pos_code_def)
    have c1: "transition_code n tr1 = ?c (Suc p)" using tr1 pj by (simp add: pos_code_def)
    have s1: "tm_to_int_body t n ?B j 0 number = Inr (horner ?c ?B (Suc p))"
      using tm_to_int_body_ok[of t j 0 tr0 n ?B number] tr0 n(2) wl[OF p(3)[THEN Suc_leD]] P'
      by (simp add: c0)
    have s2: "tm_to_int_body t n ?B j 1 (horner ?c ?B (Suc p)) = Inr (horner ?c ?B (Suc (Suc p)))"
      using tm_to_int_body_ok[of t j 1 tr1 n ?B "horner ?c ?B (Suc p)"] tr1 n(2) wl[OF p(3)]
      by (simp add: c1)
    have "nat (2 * (j + 1 - 1)) = Suc (Suc p)" using j by (simp add: p_def nat_mult_distrib)
    then show "\<exists>t'. ?body j number = Inr t' \<and> ?P (j + 1) t'"
      by (simp add: py_range_0_2 s1 s2 del: horner.simps)
  qed
  moreover have "nat (2 * (1 + int (nat n) - 1)) = nat (2 * n)" using n by simp
  ultimately have "for_range 1 (nat n) ?body 0 = Inr (horner ?c ?B (nat (2 * n)))" by auto
  then show ?thesis
    unfolding tm_to_int_def cn by (simp add: wb wn py_range_def[of 1 "n + 1"])
qed

lemma table_of_digits_cong:
  assumes "\<And>s i. 1 \<le> s \<Longrightarrow> s \<le> n \<Longrightarrow> i = 0 \<or> i = 1 \<Longrightarrow> dg s i = dg' s i"
  shows "table_of_digits dg n = table_of_digits dg' n"
proof (rule ext)
  fix x :: "int \<times> string"
  obtain s sy where x: "x = (s, sy)" by (cases x)
  show "table_of_digits dg n x = table_of_digits dg' n x"
    unfolding x table_of_digits_def using assms[of s 0] assms[of s 1] by simp
qed

lemma low_digit_mod:
  fixes k B :: int
  assumes "0 < B" "j < N"
  shows "((k mod B ^ N) div B ^ j) mod B = (k div B ^ j) mod B"
proof -
  have N: "N = j + Suc (N - Suc j)" using assms(2) by simp
  have BN: "B ^ N = B ^ j * B ^ Suc (N - Suc j)" by (subst N) (simp only: power_add)
  have pj: "0 < B ^ j" using assms(1) by simp
  have "k mod (B ^ j * B ^ Suc (N - Suc j)) = B ^ j * ((k div B ^ j) mod B ^ Suc (N - Suc j)) + k mod B ^ j"
    using assms(1) by (intro zmod_zmult2_eq) simp
  then have "(k mod B ^ N) div B ^ j = (B ^ j * ((k div B ^ j) mod B ^ Suc (N - Suc j)) + k mod B ^ j) div B ^ j"
    unfolding BN by simp
  also have "\<dots> = (k div B ^ j) mod B ^ Suc (N - Suc j)"
  proof -
    have y: "0 \<le> k mod B ^ j" "k mod B ^ j < B ^ j" using pj by simp_all
    have "(k mod B ^ j + B ^ j * ((k div B ^ j) mod B ^ Suc (N - Suc j))) div B ^ j
            = (k div B ^ j) mod B ^ Suc (N - Suc j) + (k mod B ^ j) div B ^ j"
    proof -
      have "B ^ j \<noteq> 0" using pj by linarith
      then show ?thesis by (rule div_mult_self2)
    qed
    also have "(k mod B ^ j) div B ^ j = 0" using y by (intro div_pos_pos_trivial)
    finally show ?thesis by (simp only: add.commute add_0_right add_0)
  qed
  finally have "((k mod B ^ N) div B ^ j) mod B = ((k div B ^ j) mod B ^ Suc (N - Suc j)) mod B"
    by simp
  also have "\<dots> = (k div B ^ j) mod B"
    by (rule mod_mod_cancel) simp
  finally show ?thesis .
qed

lemma spec_digit_mod:
  assumes "1 \<le> n" "1 \<le> s" "s \<le> n" "i = 0 \<or> i = 1"
  shows "spec_digit (k mod (4 * n + 2) ^ nat (2 * n)) n s i = spec_digit k n s i"
proof -
  have "nat (2 * n - 1 - (2 * (s - 1) + i)) < nat (2 * n)" using assms by auto
  then show ?thesis unfolding spec_digit_def using assms(1)
    by (intro low_digit_mod) simp_all
qed

lemma spec_digit_range:
  assumes "1 \<le> n"
  shows "0 \<le> spec_digit k n s i \<and> spec_digit k n s i < 4 * n + 2"
  using assms by (simp add: spec_digit_def)

lemma table_of_digits_valid:
  assumes "1 \<le> n" "\<And>s i. 0 \<le> dg s i \<and> dg s i < 4 * n + 2"
  shows "valid_table n (table_of_digits dg n)"
  unfolding valid_table_def
proof
  fix key :: "int \<times> string"
  obtain s sy where key: "key = (s, sy)" by (cases key)
  have v: "valid_transition n (spec_decode_digit (dg s i))" for i
    using assms(2)[of s i] by (intro spec_decode_digit_valid) simp_all
  show "if valid_key n key
        then \<exists>tr. table_of_digits dg n key = Some tr \<and> valid_transition n tr
        else table_of_digits dg n key = None"
  proof (cases "valid_key n key")
    case True
    then have "table_of_digits dg n key = Some (spec_decode_digit (dg s (if sy = ''0'' then 0 else 1)))"
      unfolding key by (auto simp: valid_key_def table_of_digits_def)
    then show ?thesis using True v by simp
  next
    case False
    then have "table_of_digits dg n key = None"
      unfolding key by (auto simp: valid_key_def table_of_digits_def)
    then show ?thesis using False by simp
  qed
qed

lemma pow_bound_6:
  assumes "1 \<le> n" "n \<le> 6"
  shows "(4 * n + 2) ^ nat (2 * n) \<le> LONG_MAX"
proof -
  have "(4 * n + 2) ^ nat (2 * n) \<le> (26 :: int) ^ nat (2 * n)"
    using assms by (intro power_mono) simp_all
  also have "\<dots> \<le> 26 ^ 12"
    using assms by (intro power_increasing) simp_all
  also have "\<dots> \<le> LONG_MAX" by (simp add: LONG_MAX_def)
  finally show ?thesis .
qed

lemma int_to_tm_table_nonpos:
  assumes "n \<le> 0" "INT_MIN \<le> 4 * n + 2" "LONG_MIN \<le> k" "k \<le> LONG_MAX"
  shows "int_to_tm_table k n = Inr Map.empty"
proof -
  have ck: "to_c_long k = Inr k" using assms by (simp add: to_c_long_def)
  have nr: "INT_MIN \<le> n" "n \<le> INT_MAX" "INT_MIN \<le> 2 * n" "INT_MIN \<le> n + 1"
    using assms by (simp_all add: INT_MIN_def INT_MAX_def)
  have cn: "to_c_int n = Inr n" using nr by (simp add: to_c_int_def)
  have wt: "wrap_int (2 * n) = 2 * n"
    using nr assms(1) by (intro wrap_int_id) (simp_all add: INT_MAX_def)
  have wn: "wrap_int (n + 1) = n + 1"
    using nr assms(1) by (intro wrap_int_id) (simp_all add: INT_MAX_def)
  have z: "nat (2 * n) = 0" "nat n = 0" using assms(1) by simp_all
  show ?thesis
    unfolding int_to_tm_table_def ck cn
    by (simp add: wt wn py_range_def z Let_def)
qed

lemma int_to_tm_table_overrun:
  assumes "11 \<le> n" "4 * n + 2 \<le> INT_MAX" "LONG_MIN \<le> k" "k \<le> LONG_MAX"
  shows "int_to_tm_table k n = Inl (DigitsStoreOutOfBounds 20)"
proof -
  let ?B = "4 * n + 2"
  have ck: "to_c_long k = Inr k" using assms by (simp add: to_c_long_def)
  have nr: "INT_MIN \<le> n" "n \<le> INT_MAX" "2 * n \<le> INT_MAX" "INT_MIN \<le> 2 * n" "INT_MIN \<le> ?B"
    using assms by (simp_all add: INT_MIN_def INT_MAX_def)
  have cn: "to_c_int n = Inr n" using nr by (simp add: to_c_int_def)
  have wt: "wrap_int (2 * n) = 2 * n" using nr by (intro wrap_int_id)
  have wb: "wrap_int ?B = ?B" using nr assms by (intro wrap_int_id)
  have B: "0 < ?B" "?B \<le> INT_MAX" using assms by simp_all
  obtain m where m: "nat (2 * n) = 20 + Suc m"
  proof -
    have "nat (2 * n) = 20 + Suc (nat (2 * n) - 21)" using assms(1) by simp
    then show ?thesis using that by blast
  qed
  from extract_digits_ok[OF B, of 20 k]
  obtain ds r where ex: "for_range 0 20 (extract_digit ?B) (replicate 20 None, k) = Inr (ds, r)"
    by auto
  have "extract_digit ?B 20 (ds, r) = Inl (DigitsStoreOutOfBounds 20)"
    using B by (simp add: extract_digit_def digits_store_def)
  then have "for_range 20 (Suc m) (extract_digit ?B) (ds, r) = Inl (DigitsStoreOutOfBounds 20)"
    by simp
  then have "for_range 0 (nat (2 * n)) (extract_digit ?B) (replicate 20 None, k)
               = Inl (DigitsStoreOutOfBounds 20)"
    unfolding m for_range_add ex by simp
  then show ?thesis
    unfolding int_to_tm_table_def ck cn by (simp add: wt wb py_range_def)
qed

section \<open>The claims about the codec\<close>

lemma valid_table_t7: "valid_table 7 t7"
  by (simp add: valid_table_def t7_def valid_transition_def)

lemma valid_table_t1_example: "valid_table 1 t1_example"
  unfolding valid_table_def
proof
  fix key :: "int \<times> string"
  obtain s sy where key: "key = (s, sy)" by (cases key)
  show "if valid_key 1 key
        then \<exists>tr. t1_example key = Some tr \<and> valid_transition 1 tr
        else t1_example key = None"
    unfolding key by (auto simp: valid_key_def t1_example_def valid_transition_def)
qed

lemma table_of_digits_1:
  "table_of_digits dg 1 (1, ''0'') = Some (spec_decode_digit (dg 1 0))"
  "table_of_digits dg 1 (1, ''1'') = Some (spec_decode_digit (dg 1 1))"
  by (simp_all add: table_of_digits_def)

text \<open>
  C1, as amended. For every \<open>n\<close> with \<open>1 \<le> n \<le> 6\<close> (the state counts for which every
  code below \<open>(4n+2)^(2n)\<close> fits the C long of the codec): every valid transition table
  \<open>t\<close> for \<open>n\<close> states is encoded by \<^verbatim>\<open>tm_to_int\<close> as a code in \<open>[0, (4n+2)^(2n))\<close>
  that \<^verbatim>\<open>int_to_tm_table\<close> decodes back to \<open>t\<close>; and every code \<open>k\<close> in that interval is
  decoded to a valid table that is encoded back to \<open>k\<close>.
\<close>

theorem codec_round_trip:
  assumes "1 \<le> n" "n \<le> 6"
  shows "(\<forall>t. valid_table n t \<longrightarrow>
            (\<exists>k. tm_to_int t n = Inr k \<and> 0 \<le> k \<and> k < (4 * n + 2) ^ nat (2 * n) \<and>
                 int_to_tm_table k n = Inr t)) \<and>
         (\<forall>k. 0 \<le> k \<and> k < (4 * n + 2) ^ nat (2 * n) \<longrightarrow>
            (\<exists>t. int_to_tm_table k n = Inr t \<and> valid_table n t \<and> tm_to_int t n = Inr k))"
proof (intro conjI allI impI)
  let ?B = "4 * n + 2"
  let ?N = "nat (2 * n)"
  have n10: "n \<le> 10" using assms by simp
  have B: "0 < ?B" using assms by simp
  have big: "?B ^ ?N \<le> LONG_MAX" by (rule pow_bound_6[OF assms])
  {
    fix t assume vt: "valid_table n t"
    have ent: "\<exists>tr. t (s, sy) = Some tr \<and> valid_transition n tr"
      if "1 \<le> s" "s \<le> n" "sy = ''0'' \<or> sy = ''1''" for s sy
      using valid_table_entry[OF vt that] .
    define K where "K = horner (pos_code t n) ?B ?N"
    have enc: "tm_to_int t n = Inr K"
      unfolding K_def by (rule tm_to_int_ok[where t = t and n = n, OF assms(1) n10 big]) (rule ent)
    have pent: "\<exists>tr. t (1 + int (p div 2), SYMBOLS_PY ! (p mod 2)) = Some tr \<and> valid_transition n tr"
      if "p < ?N" for p
    proof -
      have "1 + int (p div 2) \<le> n" using that by linarith
      moreover have "SYMBOLS_PY ! (p mod 2) = ''0'' \<or> SYMBOLS_PY ! (p mod 2) = ''1''"
      proof -
        have "p mod 2 = 0 \<or> p mod 2 = 1" by auto
        then show ?thesis by (auto simp: SYMBOLS_PY_def)
      qed
      ultimately show ?thesis using ent[of "1 + int (p div 2)" "SYMBOLS_PY ! (p mod 2)"] by simp
    qed
    have crange: "0 \<le> pos_code t n p \<and> pos_code t n p < ?B" if "p < ?N" for p
    proof -
      from pent[OF that] obtain tr where
        "t (1 + int (p div 2), SYMBOLS_PY ! (p mod 2)) = Some tr" "valid_transition n tr" by blast
      then show ?thesis using transition_code_range[of n tr] assms n10 by (simp add: pos_code_def)
    qed
    have Kb: "0 \<le> K \<and> K < ?B ^ ?N"
      unfolding K_def using crange by (intro horner_bounds[OF B]) simp
    have Kl: "LONG_MIN \<le> K" "K \<le> LONG_MAX" using Kb big by (simp_all add: LONG_MIN_def)
    have dec: "int_to_tm_table K n = Inr (table_of_digits (spec_digit K n) n)"
      by (rule int_to_tm_table_ok[OF assms(1) n10 Kl])
    have "table_of_digits (spec_digit K n) n = t"
    proof (rule ext)
      fix x :: "int \<times> string"
      obtain s sy where x: "x = (s, sy)" by (cases x)
      show "table_of_digits (spec_digit K n) n x = t x"
      proof (cases "1 \<le> s \<and> s \<le> n \<and> (sy = ''0'' \<or> sy = ''1'')")
        case False
        then have "t (s, sy) = None" using valid_table_none[OF vt, of "(s, sy)"]
          by (simp add: valid_key_def)
        then show ?thesis using False unfolding x table_of_digits_def by auto
      next
        case True
        define i :: int where "i = (if sy = ''0'' then 0 else 1)"
        have sy: "sy = SYMBOLS_PY ! nat i" using True by (auto simp: i_def SYMBOLS_PY_def)
        have i: "i = 0 \<or> i = 1" by (simp add: i_def)
        define p where "p = 2 * nat (s - 1) + nat i"
        have ip: "int p = 2 * (s - 1) + i" using True i by (auto simp: p_def)
        have p: "p < ?N" using True i by (auto simp: p_def)
        have pd: "1 + int (p div 2) = s" "p mod 2 = nat i"
          using True i by (auto simp: p_def)
        from ent[of s sy] True obtain tr where tr: "t (s, sy) = Some tr" "valid_transition n tr"
          by blast
        have pc: "pos_code t n p = transition_code n tr"
          using tr sy pd by (simp add: pos_code_def)
        have idx: "nat (2 * n - 1 - (2 * (s - 1) + i)) = ?N - 1 - p"
          unfolding ip[symmetric] using p by simp
        have lt: "?N - 1 - p < ?N" using p by simp
        have "spec_digit K n s i = (K div ?B ^ (?N - 1 - p)) mod ?B"
          unfolding spec_digit_def idx ..
        also have "\<dots> = pos_code t n (?N - 1 - (?N - 1 - p))"
          unfolding K_def using crange by (intro horner_digit[OF B _ lt]) simp
        also have "?N - 1 - (?N - 1 - p) = p" using p by simp
        finally have "spec_digit K n s i = transition_code n tr" using pc by simp
        then have "spec_decode_digit (spec_digit K n s i) = tr"
          using decode_transition_code[OF tr(2) n10] by simp
        moreover have "table_of_digits (spec_digit K n) n (s, sy) = Some (spec_decode_digit (spec_digit K n s i))"
          using True by (auto simp: table_of_digits_def i_def)
        ultimately show ?thesis using tr x by simp
      qed
    qed
    then show "\<exists>k. tm_to_int t n = Inr k \<and> 0 \<le> k \<and> k < ?B ^ ?N \<and> int_to_tm_table k n = Inr t"
      using enc Kb dec by auto
  }
  {
    fix k assume k: "0 \<le> k \<and> k < ?B ^ ?N"
    have kl: "LONG_MIN \<le> k" "k \<le> LONG_MAX" using k big by (simp_all add: LONG_MIN_def)
    define T where "T = table_of_digits (spec_digit k n) n"
    have dec: "int_to_tm_table k n = Inr T"
      unfolding T_def by (rule int_to_tm_table_ok[OF assms(1) n10 kl])
    have vT: "valid_table n T"
      unfolding T_def using spec_digit_range[OF assms(1)] by (intro table_of_digits_valid[OF assms(1)])
    have ent: "\<exists>tr. T (s, sy) = Some tr \<and> valid_transition n tr"
      if "1 \<le> s" "s \<le> n" "sy = ''0'' \<or> sy = ''1''" for s sy
      using valid_table_entry[OF vT that] .
    have enc: "tm_to_int T n = Inr (horner (pos_code T n) ?B ?N)"
      by (rule tm_to_int_ok[where t = T and n = n, OF assms(1) n10 big]) (rule ent)
    have pc: "pos_code T n p = (k div ?B ^ (?N - 1 - p)) mod ?B" if "p < ?N" for p
    proof -
      define s where "s = 1 + int (p div 2)"
      define i where "i = int (p mod 2)"
      have s: "1 \<le> s" "s \<le> n" using that by (auto simp: s_def)
      have i: "i = 0 \<or> i = 1" by (auto simp: i_def)
      have "T (s, SYMBOLS_PY ! (p mod 2)) = Some (spec_decode_digit (spec_digit k n s i))"
        unfolding T_def table_of_digits_def using s i by (auto simp: SYMBOLS_PY_def i_def)
      then have "pos_code T n p = transition_code n (spec_decode_digit (spec_digit k n s i))"
        by (simp add: pos_code_def s_def)
      also have "\<dots> = spec_digit k n s i"
        using spec_digit_range[OF assms(1), of k s i] n10 by (intro transition_code_decode) simp_all
      also have "\<dots> = (k div ?B ^ (?N - 1 - p)) mod ?B"
      proof -
        have "2 * (p div 2) + p mod 2 = p" by simp
        then have "2 * int (p div 2) + int (p mod 2) = int p" by linarith
        then have "2 * (s - 1) + i = int p" by (simp add: s_def i_def)
        then have "nat (2 * n - 1 - (2 * (s - 1) + i)) = ?N - 1 - p" using that by simp
        then show ?thesis by (simp add: spec_digit_def)
      qed
      finally show ?thesis .
    qed
    have "horner (pos_code T n) ?B ?N = (k div ?B ^ (?N - ?N)) mod ?B ^ ?N"
      using pc by (intro horner_of_digits[OF B]) simp_all
    also have "\<dots> = k" using k by simp
    finally show "\<exists>t. int_to_tm_table k n = Inr t \<and> valid_table n t \<and> tm_to_int t n = Inr k"
      using dec vT enc by simp
  }
qed

theorem codec_round_trip_witness:
  "tm_to_int t1_example 1 = Inr 31 \<and> int_to_tm_table 31 1 = Inr t1_example \<and>
   (\<exists>t. int_to_tm_table 21 1 = Inr t \<and> valid_table 1 t \<and> tm_to_int t 1 = Inr 21)"
proof -
  have e: "tm_to_int t1_example 1 = Inr 31" by code_simp
  from codec_round_trip[of 1] valid_table_t1_example
  obtain k where "tm_to_int t1_example 1 = Inr k" "int_to_tm_table k 1 = Inr t1_example"
    by auto
  then have 1: "int_to_tm_table 31 1 = Inr t1_example" using e by simp
  have 2: "\<exists>t. int_to_tm_table 21 1 = Inr t \<and> valid_table 1 t \<and> tm_to_int t 1 = Inr 21"
    using codec_round_trip[of 1] by simp
  show ?thesis using e 1 2 by simp
qed

text \<open>
  C1 as stated fails for \<open>n = 7\<close>. The code \<open>2^63\<close> lies below \<open>30^14\<close> but does not fit the
  C long parameter of \<^verbatim>\<open>int_to_tm_table\<close>, which raises OverflowError; and the valid
  table \<open>t7\<close> has the code \<open>30^14 - 1\<close>, which the C long of \<^verbatim>\<open>tm_to_int\<close> wraps to a
  negative number whose decoding differs from \<open>t7\<close> at the cell \<open>(1, '1')\<close>.
\<close>

theorem codec_round_trip_counterexample:
  "(0 :: int) \<le> 2 ^ 63 \<and> (2 :: int) ^ 63 < (4 * 7 + 2) ^ nat (2 * 7) \<and>
   int_to_tm_table (2 ^ 63) 7 = Inl OverflowError \<and>
   valid_table 7 t7 \<and> tm_to_int t7 7 = Inr (- 1318445916448342017) \<and>
   (\<exists>t. int_to_tm_table (- 1318445916448342017) 7 = Inr t \<and>
        t (1, ''1'') = Some (7, ''0'', 1) \<and> t7 (1, ''1'') = Some (7, ''1'', 1))"
proof -
  have 1: "int_to_tm_table (2 ^ 63) 7 = Inl OverflowError"
    by (simp add: int_to_tm_table_def to_c_long_def LONG_MAX_def)
  have 2: "tm_to_int t7 7 = Inr (- 1318445916448342017)" by code_simp
  have 3: "int_to_tm_table (- 1318445916448342017) 7 =
             Inr (table_of_digits (spec_digit (- 1318445916448342017) 7) 7)"
    by (rule int_to_tm_table_ok) (simp_all add: LONG_MIN_def LONG_MAX_def)
  have 4: "table_of_digits (spec_digit (- 1318445916448342017) 7) 7 (1, ''1'') = Some (7, ''0'', 1)"
    by (simp add: table_of_digits_def spec_digit_def spec_decode_digit_def SYMBOLS_PY_def)
  have 5: "t7 (1, ''1'') = Some (7, ''1'', 1)" by (simp add: t7_def valid_key_def)
  show ?thesis using 1 2 3 4 5 valid_table_t7 by simp
qed

text \<open>
  C3, as amended. \<^verbatim>\<open>int_to_tm_table\<close> has no range check against \<open>(4n+2)^(2n)\<close>: for
  \<open>1 \<le> n \<le> 10\<close> and a code \<open>k \<ge> (4n+2)^(2n)\<close> that fits a C long it returns a table,
  the table of \<open>k mod (4n+2)^(2n)\<close> (the digits above the lowest \<open>2n\<close> are dropped); it
  fails, with OverflowError, only for a \<open>k\<close> that does not fit a C long.
\<close>

theorem decoder_no_range_check:
  assumes "1 \<le> n" "n \<le> 10" "(4 * n + 2) ^ nat (2 * n) \<le> k"
  shows "(k \<le> LONG_MAX \<longrightarrow>
            (\<exists>t. int_to_tm_table k n = Inr t) \<and>
            int_to_tm_table k n = int_to_tm_table (k mod (4 * n + 2) ^ nat (2 * n)) n) \<and>
         (LONG_MAX < k \<longrightarrow> int_to_tm_table k n = Inl OverflowError)"
proof (intro conjI impI)
  assume k: "k \<le> LONG_MAX"
  let ?N = "(4 * n + 2) ^ nat (2 * n)"
  have N: "0 < ?N" using assms(1) by simp
  have k0: "LONG_MIN \<le> k" using assms(3) N by (simp add: LONG_MIN_def)
  have m: "0 \<le> k mod ?N" "k mod ?N < ?N" using N by simp_all
  have km: "LONG_MIN \<le> k mod ?N" "k mod ?N \<le> LONG_MAX"
    using m assms(3) k by (simp_all add: LONG_MIN_def)
  have 1: "int_to_tm_table k n = Inr (table_of_digits (spec_digit k n) n)"
    by (rule int_to_tm_table_ok[OF assms(1,2) k0 k])
  have 2: "int_to_tm_table (k mod ?N) n = Inr (table_of_digits (spec_digit (k mod ?N) n) n)"
    by (rule int_to_tm_table_ok[OF assms(1,2) km])
  have 3: "table_of_digits (spec_digit (k mod ?N) n) n = table_of_digits (spec_digit k n) n"
    by (rule table_of_digits_cong) (simp add: spec_digit_mod assms(1))
  show "\<exists>t. int_to_tm_table k n = Inr t" using 1 by simp
  show "int_to_tm_table k n = int_to_tm_table (k mod ?N) n" using 1 2 3 by simp
next
  assume "LONG_MAX < k"
  then show "int_to_tm_table k n = Inl OverflowError"
    by (simp add: int_to_tm_table_def to_c_long_def)
qed

theorem decoder_no_range_check_witness:
  "(\<exists>t. int_to_tm_table 36 1 = Inr t) \<and> int_to_tm_table 36 1 = int_to_tm_table 0 1 \<and>
   int_to_tm_table (2 ^ 63) 1 = Inl OverflowError"
proof -
  have p: "(1 :: int) \<le> 1" "(1 :: int) \<le> 10" "(4 * 1 + 2) ^ nat (2 * 1) \<le> (36 :: int)"
    "(36 :: int) \<le> LONG_MAX" by (simp_all add: LONG_MAX_def)
  have m: "(36 :: int) mod (4 * 1 + 2) ^ nat (2 * 1) = 0" by simp
  have "(\<exists>t. int_to_tm_table 36 1 = Inr t) \<and>
        int_to_tm_table 36 1 = int_to_tm_table (36 mod (4 * 1 + 2) ^ nat (2 * 1)) 1"
    using decoder_no_range_check[of 1 36] p by blast
  then have a: "(\<exists>t. int_to_tm_table 36 1 = Inr t) \<and> int_to_tm_table 36 1 = int_to_tm_table 0 1"
    unfolding m .
  have b: "int_to_tm_table (2 ^ 63) 1 = Inl OverflowError"
    using decoder_no_range_check[of 1 "2 ^ 63"] by (simp add: LONG_MAX_def)
  show ?thesis by (rule conjI[OF conjunct1[OF a] conjI[OF conjunct2[OF a] b]])
qed

text \<open>
  C3 as stated fails: the code \<open>36 = (4 1 + 2)^(2 1)\<close> is out of range for one state, and
  the decoder returns the table of the code \<open>0\<close> for it.
\<close>

theorem decoder_range_check_counterexample:
  "(4 * 1 + 2) ^ nat (2 * 1) \<le> (36 :: int) \<and>
   (\<exists>t. int_to_tm_table 36 1 = Inr t \<and>
        t (1, ''0'') = Some (0, ''0'', 0) \<and> t (1, ''1'') = Some (0, ''0'', 0))"
proof -
  have "int_to_tm_table 36 1 = Inr (table_of_digits (spec_digit 36 1) 1)"
    by (rule int_to_tm_table_ok) (simp_all add: LONG_MIN_def LONG_MAX_def)
  moreover have "table_of_digits (spec_digit 36 1) 1 (1, ''0'') = Some (0, ''0'', 0)"
    by (simp add: table_of_digits_1 spec_digit_def spec_decode_digit_def)
  moreover have "table_of_digits (spec_digit 36 1) 1 (1, ''1'') = Some (0, ''0'', 0)"
    by (simp add: table_of_digits_1 spec_digit_def spec_decode_digit_def)
  ultimately show ?thesis by simp
qed

text \<open>
  C7. For \<open>1 \<le> n \<le> 10\<close> and a code \<open>k\<close> that fits a C long, \<^verbatim>\<open>int_to_tm_table k n\<close>
  returns a table whose entry for \<open>(state, symbol)\<close> is the specification's decoding of
  the digit of \<open>k\<close> at the big-endian position \<open>2 (state - 1) + symbol_index\<close> among \<open>2n\<close>
  digits in base \<open>4n + 2\<close>.
\<close>

theorem digit_decoding_formula:
  assumes "1 \<le> n" "n \<le> 10" "LONG_MIN \<le> k" "k \<le> LONG_MAX"
    and "1 \<le> state" "state \<le> n" "symbol_index = 0 \<or> symbol_index = 1"
  shows "\<exists>t. int_to_tm_table k n = Inr t \<and>
             t (state, SYMBOLS_PY ! nat symbol_index) =
               Some (spec_decode_digit (spec_digit k n state symbol_index))"
proof -
  have "table_of_digits (spec_digit k n) n (state, SYMBOLS_PY ! nat symbol_index) =
          Some (spec_decode_digit (spec_digit k n state symbol_index))"
    using assms(5-7) by (auto simp: table_of_digits_def SYMBOLS_PY_def)
  then show ?thesis using int_to_tm_table_ok[OF assms(1-4)] by simp
qed

theorem digit_decoding_formula_witness:
  "\<exists>t. int_to_tm_table 21 1 = Inr t \<and> t (1, ''0'') = Some (1, ''0'', 1) \<and>
       t (1, ''1'') = Some (1, ''0'', 1)"
  using digit_decoding_formula[of 1 21 1 0] digit_decoding_formula[of 1 21 1 1]
  by (auto simp: LONG_MIN_def LONG_MAX_def spec_digit_def spec_decode_digit_def SYMBOLS_PY_def)

text \<open>
  C10. The digit buffer has twenty cells. For a state count \<open>n\<close> whose base \<open>4n + 2\<close> fits
  a C int and a code that fits a C long: when \<open>n \<le> 10\<close> no access of the digit loop or of
  the table loop leaves the buffer and the decoder returns a table; when \<open>n \<ge> 11\<close> the
  digit loop stores at index \<open>20\<close>, past the end of the buffer.
\<close>

theorem digit_buffer_bounds:
  assumes "LONG_MIN \<le> k" "k \<le> LONG_MAX" "INT_MIN \<le> 4 * n + 2" "4 * n + 2 \<le> INT_MAX"
  shows "(n \<le> 10 \<longrightarrow> (\<exists>t. int_to_tm_table k n = Inr t)) \<and>
         (11 \<le> n \<longrightarrow> int_to_tm_table k n = Inl (DigitsStoreOutOfBounds 20))"
proof (intro conjI impI)
  assume n: "n \<le> 10"
  show "\<exists>t. int_to_tm_table k n = Inr t"
  proof (cases "1 \<le> n")
    case True
    then show ?thesis using int_to_tm_table_ok[OF True n assms(1,2)] by simp
  next
    case False
    then show ?thesis using int_to_tm_table_nonpos[of n k] assms by simp
  qed
next
  assume "11 \<le> n"
  then show "int_to_tm_table k n = Inl (DigitsStoreOutOfBounds 20)"
    using int_to_tm_table_overrun assms by simp
qed

theorem digit_buffer_bounds_witness:
  "(\<exists>t. int_to_tm_table 0 10 = Inr t) \<and>
   int_to_tm_table 0 11 = Inl (DigitsStoreOutOfBounds 20)"
  using digit_buffer_bounds[of 0 10] digit_buffer_bounds[of 0 11]
  by (simp add: LONG_MIN_def LONG_MAX_def INT_MIN_def INT_MAX_def)

section \<open>Lemmas about the simulator step and the filters\<close>

lemma to_c_int_Inr: "INT_MIN \<le> x \<Longrightarrow> x \<le> INT_MAX \<Longrightarrow> to_c_int x = Inr x"
  by (simp add: to_c_int_def)

lemma to_c_int_cases:
  obtains "to_c_int x = Inl OverflowError" | "to_c_int x = Inr x" "INT_MIN \<le> x" "x \<le> INT_MAX"
  by (cases "INT_MIN \<le> x \<and> x \<le> INT_MAX") (auto simp: to_c_int_def)

lemma cell_of_upd [simp]:
  "cell_of b (items(p \<mapsto> w)) c = (if c = p then w else cell_of b items c)"
  by (simp add: cell_of_def)

lemma cell_of_None: "items p = None \<Longrightarrow> cell_of b items p = b"
  by (simp add: cell_of_def)

lemma cell_of_upd_blank [simp]:
  "items p = None \<Longrightarrow> cell_of b (items(p \<mapsto> b)) = cell_of b items"
  by (rule ext) (simp add: cell_of_def)

lemma tape_get_eq:
  "tape_get tm_obj pos =
     (read_cell tm_obj pos,
      tm_obj\<lparr>tape := (if tape tm_obj pos = None then (tape tm_obj)(pos \<mapsto> blank_symbol tm_obj)
                       else tape tm_obj)\<rparr>)"
  by (cases "tape tm_obj pos") (simp_all add: tape_get_def read_cell_def cell_of_def)

lemma read_cell_tape_get [simp]:
  "read_cell (snd (tape_get tm_obj pos)) c = read_cell tm_obj c"
  by (cases "tape tm_obj pos") (simp_all add: tape_get_def read_cell_def)

lemma cython_step_error1:
  "to_c_int (current_state tm_obj) = Inl e \<Longrightarrow> cython_step tm_obj = (Inl e, tm_obj)"
  by (simp add: cython_step_def)

lemma cython_step_error2:
  "to_c_int (current_state tm_obj) = Inr s \<Longrightarrow> to_c_int (head_position tm_obj) = Inl e \<Longrightarrow>
     cython_step tm_obj = (Inl e, tm_obj)"
  by (simp add: cython_step_def)

lemma cython_step_halted:
  assumes "to_c_int (head_position tm_obj) = Inr h" "current_state tm_obj = HALT_STATE"
  shows "cython_step tm_obj = (Inr 0, tm_obj)"
  using assms by (simp add: cython_step_def to_c_int_def INT_MIN_def INT_MAX_def)

lemma cython_step_undefined:
  assumes "to_c_int (current_state tm_obj) = Inr s" "to_c_int (head_position tm_obj) = Inr h"
    and "current_state tm_obj \<noteq> HALT_STATE"
    and "transition_table tm_obj (current_state tm_obj, read_cell tm_obj (head_position tm_obj)) = None"
  shows "cython_step tm_obj =
           (Inr 0, tm_obj\<lparr>tape := (if tape tm_obj h = None then (tape tm_obj)(h \<mapsto> blank_symbol tm_obj)
                                     else tape tm_obj),
                          current_state := HALT_STATE\<rparr>)"
proof -
  have s: "s = current_state tm_obj" and h: "h = head_position tm_obj"
    using assms(1,2) by (auto simp: to_c_int_def split: if_splits)
  show ?thesis
    using assms unfolding cython_step_def s h by (simp add: tape_get_eq)
qed

lemma cython_step_defined:
  assumes "to_c_int (current_state tm_obj) = Inr s" "to_c_int (head_position tm_obj) = Inr h"
    and "current_state tm_obj \<noteq> HALT_STATE"
    and "transition_table tm_obj (current_state tm_obj, read_cell tm_obj (head_position tm_obj))
           = Some (ns, w, mv)"
  shows "cython_step tm_obj =
           (Inr (if ns = HALT_STATE then 0 else 1),
            tm_obj\<lparr>tape := (tape tm_obj)(h \<mapsto> w),
                   current_state := ns,
                   head_position := h + mv,
                   min_visited := min (min_visited tm_obj) (h + mv),
                   max_visited := max (max_visited tm_obj) (h + mv),
                   steps_taken := steps_taken tm_obj + 1\<rparr>)"
proof -
  have s: "s = current_state tm_obj" and h: "h = head_position tm_obj"
    using assms(1,2) by (auto simp: to_c_int_def split: if_splits)
  show ?thesis
    using assms unfolding cython_step_def s h by (simp add: tape_get_eq Let_def)
qed

lemma cython_step_cases [case_names error halted undefined defined]:
  obtains
    (error) e where "cython_step tm_obj = (Inl e, tm_obj)"
      "\<not> (INT_MIN \<le> current_state tm_obj \<and> current_state tm_obj \<le> INT_MAX \<and>
          INT_MIN \<le> head_position tm_obj \<and> head_position tm_obj \<le> INT_MAX)"
  | (halted) "current_state tm_obj = HALT_STATE" "cython_step tm_obj = (Inr 0, tm_obj)"
  | (undefined) "current_state tm_obj \<noteq> HALT_STATE"
      "transition_table tm_obj (current_state tm_obj, read_cell tm_obj (head_position tm_obj)) = None"
      "cython_step tm_obj =
         (Inr 0, tm_obj\<lparr>tape := (if tape tm_obj (head_position tm_obj) = None
                                   then (tape tm_obj)(head_position tm_obj \<mapsto> blank_symbol tm_obj)
                                   else tape tm_obj),
                        current_state := HALT_STATE\<rparr>)"
  | (defined) ns w mv where "current_state tm_obj \<noteq> HALT_STATE"
      "INT_MIN \<le> head_position tm_obj" "head_position tm_obj \<le> INT_MAX"
      "transition_table tm_obj (current_state tm_obj, read_cell tm_obj (head_position tm_obj))
         = Some (ns, w, mv)"
      "cython_step tm_obj =
         (Inr (if ns = HALT_STATE then 0 else 1),
          tm_obj\<lparr>tape := (tape tm_obj)(head_position tm_obj \<mapsto> w),
                 current_state := ns,
                 head_position := head_position tm_obj + mv,
                 min_visited := min (min_visited tm_obj) (head_position tm_obj + mv),
                 max_visited := max (max_visited tm_obj) (head_position tm_obj + mv),
                 steps_taken := steps_taken tm_obj + 1\<rparr>)"
proof (cases "INT_MIN \<le> current_state tm_obj \<and> current_state tm_obj \<le> INT_MAX \<and>
          INT_MIN \<le> head_position tm_obj \<and> head_position tm_obj \<le> INT_MAX")
  case False
  then have "\<exists>e. cython_step tm_obj = (Inl e, tm_obj)"
    by (cases "to_c_int (current_state tm_obj)"; cases "to_c_int (head_position tm_obj)")
       (auto simp: cython_step_error1 cython_step_error2 to_c_int_def split: if_splits)
  then show ?thesis using error False by blast
next
  case True
  then have c: "to_c_int (current_state tm_obj) = Inr (current_state tm_obj)"
    "to_c_int (head_position tm_obj) = Inr (head_position tm_obj)"
    by (simp_all add: to_c_int_def)
  show ?thesis
  proof (cases "current_state tm_obj = HALT_STATE")
    case h: True
    then show ?thesis using halted cython_step_halted[OF c(2)] by simp
  next
    case nh: False
    show ?thesis
    proof (cases "transition_table tm_obj (current_state tm_obj, read_cell tm_obj (head_position tm_obj))")
      case None
      then show ?thesis using undefined[OF nh None] cython_step_undefined[OF c nh None] by simp
    next
      case (Some tr)
      obtain ns w mv where tr: "tr = (ns, w, mv)" by (cases tr)
      show ?thesis
        using defined[of ns w mv] nh True Some cython_step_defined[OF c nh, of ns w mv]
        unfolding tr by simp
    qed
  qed
qed

lemma cython_step_min_max:
  "min_visited (snd (cython_step tm_obj)) \<le> min_visited tm_obj \<and>
   max_visited tm_obj \<le> max_visited (snd (cython_step tm_obj))"
  by (cases tm_obj rule: cython_step_cases) simp_all

lemma cython_step_range:
  assumes "min_visited tm_obj \<le> head_position tm_obj" "head_position tm_obj \<le> max_visited tm_obj"
  shows "min_visited (snd (cython_step tm_obj)) \<le> head_position (snd (cython_step tm_obj)) \<and>
         head_position (snd (cython_step tm_obj)) \<le> max_visited (snd (cython_step tm_obj))"
  using assms by (cases tm_obj rule: cython_step_cases) simp_all

lemma cython_steps_0 [simp]: "cython_steps 0 tm_obj = tm_obj"
  by (simp add: cython_steps_def)

lemma cython_steps_Suc: "cython_steps (Suc m) tm_obj = snd (cython_step (cython_steps m tm_obj))"
  by (simp add: cython_steps_def)

lemma cython_steps_add: "cython_steps (m + k) tm_obj = cython_steps k (cython_steps m tm_obj)"
  by (induction k) (simp_all add: cython_steps_Suc)

lemma cython_steps_min_max:
  "min_visited (cython_steps m tm_obj) \<le> min_visited tm_obj \<and>
   max_visited tm_obj \<le> max_visited (cython_steps m tm_obj)"
proof (induction m)
  case 0
  show ?case by simp
next
  case (Suc m)
  show ?case
    using Suc cython_step_min_max[of "cython_steps m tm_obj"]
    by (simp add: cython_steps_Suc)
qed

lemma graph_eq_imp_eq:
  assumes "Map.graph m = Map.graph m'"
  shows "m = m'"
proof (rule ext)
  fix k
  show "m k = m' k"
  proof (cases "m k")
    case None
    show ?thesis
    proof (cases "m' k")
      case None' : None
      then show ?thesis using None by simp
    next
      case (Some v)
      then have "(k, v) \<in> Map.graph m" using assms by (simp add: in_graphI)
      then show ?thesis using None by (simp add: in_graphD)
    qed
  next
    case (Some v)
    then have "(k, v) \<in> Map.graph m'" using assms in_graphI[of m k v] by simp
    then show ?thesis using Some by (simp add: in_graphD)
  qed
qed

lemma deque_append_props:
  "length (deque_append 3 d x) \<le> 3" "last (deque_append 3 d x) = x"
  "deque_append 3 d x \<noteq> []"
  by (simp_all add: deque_append_def)

lemma tm_query1_eq:
  "tm_query1 =
     \<lparr>current_state = 2, transition_table = t_pingpong, tape = [0 \<mapsto> ''1''], head_position = 1,
      blank_symbol = ''0'', min_visited = 0, max_visited = 1, steps_taken = 1,
      num_states = 2, escapee_seen_positions = Some {1}, escapee_blank_run_count = 0,
      cycle_history = None\<rparr>"
  by (simp add: tm_query1_def initial_tm_def cython_step_def to_c_int_def INT_MIN_def
      INT_MAX_def tape_get_def t_pingpong_def check_escapee_def)

lemma tm_query2_eq:
  "tm_query2 =
     \<lparr>current_state = 1, transition_table = t_pingpong, tape = [0 \<mapsto> ''1'', 1 \<mapsto> ''0''],
      head_position = 0,
      blank_symbol = ''0'', min_visited = 0, max_visited = 1, steps_taken = 2,
      num_states = 2, escapee_seen_positions = Some {1}, escapee_blank_run_count = 0,
      cycle_history = None\<rparr>"
  unfolding tm_query2_def tm_query1_eq
  by (simp add: cython_step_def to_c_int_def INT_MIN_def
      INT_MAX_def tape_get_def t_pingpong_def check_escapee_def Let_def)

section \<open>The claims about the simulator step and the filters\<close>

text \<open>
  C6. For a machine whose \<^verbatim>\<open>current_state\<close> and \<^verbatim>\<open>head_position\<close> fit the C ints of
  \<^verbatim>\<open>cython_step\<close>, whose state is active and whose table has the entry
  \<open>(next_state, write, move)\<close> for the state and the symbol under the head: one call
  returns \<open>1\<close> when \<open>next_state\<close> is active and \<open>0\<close> when it is the halt state, writes
  \<open>write\<close> at the head cell (and changes no other cell), sets the state to \<open>next_state\<close>,
  moves the head by \<open>move\<close>, extends \<open>min_visited\<close> and \<open>max_visited\<close> to include the new
  head position and increments \<open>steps_taken\<close> by one.
\<close>

theorem cython_step_semantics:
  assumes "INT_MIN \<le> current_state tm_obj" "current_state tm_obj \<le> INT_MAX"
    and "INT_MIN \<le> head_position tm_obj" "head_position tm_obj \<le> INT_MAX"
    and "current_state tm_obj \<noteq> HALT_STATE"
    and "transition_table tm_obj (current_state tm_obj, read_cell tm_obj (head_position tm_obj))
           = Some (next_state, write, move)"
  shows "fst (cython_step tm_obj) = Inr (if next_state = HALT_STATE then 0 else 1) \<and>
         (let tm' = snd (cython_step tm_obj) in
            read_cell tm' = (read_cell tm_obj)(head_position tm_obj := write) \<and>
            current_state tm' = next_state \<and>
            head_position tm' = head_position tm_obj + move \<and>
            min_visited tm' = min (min_visited tm_obj) (head_position tm') \<and>
            max_visited tm' = max (max_visited tm_obj) (head_position tm') \<and>
            min_visited tm' \<le> head_position tm' \<and> head_position tm' \<le> max_visited tm' \<and>
            steps_taken tm' = steps_taken tm_obj + 1)"
proof -
  have c: "to_c_int (current_state tm_obj) = Inr (current_state tm_obj)"
    "to_c_int (head_position tm_obj) = Inr (head_position tm_obj)"
    using assms(1-4) by (simp_all add: to_c_int_def)
  note st = cython_step_defined[OF c assms(5,6)]
  have "read_cell (snd (cython_step tm_obj)) = (read_cell tm_obj)(head_position tm_obj := write)"
    unfolding st by (rule ext) (simp add: read_cell_def)
  then show ?thesis unfolding Let_def by (simp add: st)
qed

theorem cython_step_semantics_witness:
  "fst (cython_step (initial_tm t1_example 1 ''0'')) = Inr 1 \<and>
   read_cell (snd (cython_step (initial_tm t1_example 1 ''0''))) 0 = ''1'' \<and>
   current_state (snd (cython_step (initial_tm t1_example 1 ''0''))) = 1 \<and>
   head_position (snd (cython_step (initial_tm t1_example 1 ''0''))) = 1 \<and>
   min_visited (snd (cython_step (initial_tm t1_example 1 ''0''))) = 0 \<and>
   max_visited (snd (cython_step (initial_tm t1_example 1 ''0''))) = 1 \<and>
   steps_taken (snd (cython_step (initial_tm t1_example 1 ''0''))) = 1"
  using cython_step_semantics[of "initial_tm t1_example 1 ''0''" 1 "''1''" 1]
  by (simp add: initial_tm_def t1_example_def read_cell_def cell_of_def INT_MIN_def INT_MAX_def Let_def)


text \<open>
  C8. If \<open>min_visited \<le> head_position \<le> max_visited\<close> holds before a call of
  \<^verbatim>\<open>cython_step\<close> it holds after the call; and over any sequence of calls (here the
  \<open>k\<close> calls that follow the first \<open>m\<close>) \<open>min_visited\<close> does not increase and
  \<open>max_visited\<close> does not decrease.
\<close>

theorem visited_range_invariant:
  "(min_visited tm_obj \<le> head_position tm_obj \<and> head_position tm_obj \<le> max_visited tm_obj \<longrightarrow>
      min_visited (snd (cython_step tm_obj)) \<le> head_position (snd (cython_step tm_obj)) \<and>
      head_position (snd (cython_step tm_obj)) \<le> max_visited (snd (cython_step tm_obj))) \<and>
   min_visited (cython_steps (m + k) tm_obj) \<le> min_visited (cython_steps m tm_obj) \<and>
   max_visited (cython_steps m tm_obj) \<le> max_visited (cython_steps (m + k) tm_obj)"
  using cython_step_range[of tm_obj] cython_steps_min_max[of k "cython_steps m tm_obj"]
  by (simp add: cython_steps_add)

theorem visited_range_invariant_witness:
  "min_visited (snd (cython_step (initial_tm t1_example 1 ''0'')))
     \<le> head_position (snd (cython_step (initial_tm t1_example 1 ''0''))) \<and>
   head_position (snd (cython_step (initial_tm t1_example 1 ''0'')))
     \<le> max_visited (snd (cython_step (initial_tm t1_example 1 ''0''))) \<and>
   min_visited (cython_steps (1 + 2) (initial_tm t1_example 1 ''0''))
     \<le> min_visited (cython_steps 1 (initial_tm t1_example 1 ''0'')) \<and>
   max_visited (cython_steps 1 (initial_tm t1_example 1 ''0''))
     \<le> max_visited (cython_steps (1 + 2) (initial_tm t1_example 1 ''0''))"
  using visited_range_invariant[of "initial_tm t1_example 1 ''0''" 1 2]
  by (simp add: initial_tm_def)


text \<open>
  C9. If the table has no entry for the current state and the symbol under the head
  (and the state and the head position fit the C ints of \<^verbatim>\<open>cython_step\<close>), the call
  raises no error, returns the halt verdict \<open>0\<close> and leaves the machine in the halt
  state; the content of every tape cell, the head position, \<open>min_visited\<close>,
  \<open>max_visited\<close> and \<open>steps_taken\<close> are unchanged.
\<close>

theorem undefined_transition_halts:
  assumes "INT_MIN \<le> current_state tm_obj" "current_state tm_obj \<le> INT_MAX"
    and "INT_MIN \<le> head_position tm_obj" "head_position tm_obj \<le> INT_MAX"
    and "transition_table tm_obj (current_state tm_obj, read_cell tm_obj (head_position tm_obj)) = None"
  shows "fst (cython_step tm_obj) = Inr 0 \<and>
         (let tm' = snd (cython_step tm_obj) in
            current_state tm' = HALT_STATE \<and>
            (\<forall>c. read_cell tm' c = read_cell tm_obj c) \<and>
            head_position tm' = head_position tm_obj \<and>
            min_visited tm' = min_visited tm_obj \<and>
            max_visited tm' = max_visited tm_obj \<and>
            steps_taken tm' = steps_taken tm_obj)"
proof (cases tm_obj rule: cython_step_cases)
  case (error e)
  then show ?thesis using assms by simp
next
  case halted
  then show ?thesis by simp
next
  case undefined
  then show ?thesis by (simp add: read_cell_def)
next
  case (defined ns w mv)
  then show ?thesis using assms by simp
qed

theorem undefined_transition_halts_witness:
  "fst (cython_step (initial_tm Map.empty 1 ''0'')) = Inr 0 \<and>
   current_state (snd (cython_step (initial_tm Map.empty 1 ''0''))) = 0 \<and>
   read_cell (snd (cython_step (initial_tm Map.empty 1 ''0''))) 0 = ''0'' \<and>
   head_position (snd (cython_step (initial_tm Map.empty 1 ''0''))) = 0 \<and>
   min_visited (snd (cython_step (initial_tm Map.empty 1 ''0''))) = 0 \<and>
   max_visited (snd (cython_step (initial_tm Map.empty 1 ''0''))) = 0 \<and>
   steps_taken (snd (cython_step (initial_tm Map.empty 1 ''0''))) = 0"
  using undefined_transition_halts[of "initial_tm Map.empty 1 ''0''"]
  by (simp add: initial_tm_def read_cell_def cell_of_def INT_MIN_def INT_MAX_def Let_def)


text \<open>
  C4, as amended. On its first query (the object has no seen-set yet) \<^verbatim>\<open>check_escapee\<close>
  sets \<open>seen\<close> to the set of the present head position alone and \<open>run\<close> to \<open>0\<close>, and
  returns False. On every later query, with the head at \<open>p\<close> (a position that fits a
  C int): if the cell at \<open>p\<close> is blank and \<open>p\<close> is not in \<open>seen\<close>, then \<open>run\<close> is
  incremented by one and \<open>p\<close> is added to \<open>seen\<close>; otherwise \<open>run\<close> is reset to \<open>0\<close> and
  \<open>seen\<close> is left as it is; the query returns True exactly when \<open>run\<close> then exceeds
  the number of states. The query changes no cell content and nothing of the
  configuration.
\<close>

theorem check_escapee_behaviour:
  "(escapee_seen_positions tm_obj = None \<longrightarrow>
      check_escapee tm_obj =
        (Inr False, tm_obj\<lparr>escapee_seen_positions := Some {head_position tm_obj},
                           escapee_blank_run_count := 0\<rparr>)) \<and>
   (\<forall>seen. escapee_seen_positions tm_obj = Some seen \<and>
           INT_MIN \<le> head_position tm_obj \<and> head_position tm_obj \<le> INT_MAX \<longrightarrow>
      (\<exists>tm'. check_escapee tm_obj = (Inr (num_states tm_obj < escapee_blank_run_count tm'), tm') \<and>
         (if read_cell tm_obj (head_position tm_obj) = blank_symbol tm_obj \<and>
             head_position tm_obj \<notin> seen
          then escapee_blank_run_count tm' = escapee_blank_run_count tm_obj + 1 \<and>
               escapee_seen_positions tm' = Some (insert (head_position tm_obj) seen)
          else escapee_blank_run_count tm' = 0 \<and> escapee_seen_positions tm' = Some seen) \<and>
         (\<forall>c. read_cell tm' c = read_cell tm_obj c) \<and>
         current_state tm' = current_state tm_obj \<and>
         head_position tm' = head_position tm_obj \<and>
         min_visited tm' = min_visited tm_obj \<and>
         max_visited tm' = max_visited tm_obj \<and>
         steps_taken tm' = steps_taken tm_obj))"
proof (intro conjI impI allI)
  assume "escapee_seen_positions tm_obj = None"
  then show "check_escapee tm_obj =
        (Inr False, tm_obj\<lparr>escapee_seen_positions := Some {head_position tm_obj},
                           escapee_blank_run_count := 0\<rparr>)"
    by (simp add: check_escapee_def)
next
  fix seen
  assume a: "escapee_seen_positions tm_obj = Some seen \<and>
           INT_MIN \<le> head_position tm_obj \<and> head_position tm_obj \<le> INT_MAX"
  let ?h = "head_position tm_obj"
  define tm1 where "tm1 = tm_obj\<lparr>tape := (if tape tm_obj ?h = None
                       then (tape tm_obj)(?h \<mapsto> blank_symbol tm_obj) else tape tm_obj)\<rparr>"
  have c: "to_c_int ?h = Inr ?h" using a by (simp add: to_c_int_def)
  have tg: "tape_get tm_obj ?h = (read_cell tm_obj ?h, tm1)"
    unfolding tm1_def by (rule tape_get_eq)
  have r1: "\<forall>c. read_cell tm1 c = read_cell tm_obj c"
    using read_cell_tape_get[of tm_obj ?h] unfolding tg by simp
  have f1: "blank_symbol tm1 = blank_symbol tm_obj" "num_states tm1 = num_states tm_obj"
    "escapee_blank_run_count tm1 = escapee_blank_run_count tm_obj"
    "current_state tm1 = current_state tm_obj" "head_position tm1 = ?h"
    "min_visited tm1 = min_visited tm_obj" "max_visited tm1 = max_visited tm_obj"
    "steps_taken tm1 = steps_taken tm_obj" "escapee_seen_positions tm1 = Some seen"
    using a by (simp_all add: tm1_def)
  show "\<exists>tm'. check_escapee tm_obj = (Inr (num_states tm_obj < escapee_blank_run_count tm'), tm') \<and>
         (if read_cell tm_obj ?h = blank_symbol tm_obj \<and> ?h \<notin> seen
          then escapee_blank_run_count tm' = escapee_blank_run_count tm_obj + 1 \<and>
               escapee_seen_positions tm' = Some (insert ?h seen)
          else escapee_blank_run_count tm' = 0 \<and> escapee_seen_positions tm' = Some seen) \<and>
         (\<forall>c. read_cell tm' c = read_cell tm_obj c) \<and>
         current_state tm' = current_state tm_obj \<and>
         head_position tm' = ?h \<and>
         min_visited tm' = min_visited tm_obj \<and>
         max_visited tm' = max_visited tm_obj \<and>
         steps_taken tm' = steps_taken tm_obj"
  proof (cases "read_cell tm_obj ?h = blank_symbol tm_obj \<and> ?h \<notin> seen")
    case True
    let ?tm2 = "tm1\<lparr>escapee_blank_run_count := escapee_blank_run_count tm1 + 1,
                      escapee_seen_positions := Some (insert ?h seen)\<rparr>"
    have "check_escapee tm_obj = (Inr (num_states ?tm2 < escapee_blank_run_count ?tm2), ?tm2)"
      unfolding check_escapee_def using a True by (simp add: c tg f1(1) Let_def)
    moreover have "\<forall>c. read_cell ?tm2 c = read_cell tm_obj c"
      using r1 by (simp add: read_cell_def)
    ultimately show ?thesis using True f1 by (intro exI[of _ ?tm2]) simp
  next
    case False
    let ?tm2 = "tm1\<lparr>escapee_blank_run_count := 0\<rparr>"
    have "check_escapee tm_obj = (Inr (num_states ?tm2 < escapee_blank_run_count ?tm2), ?tm2)"
      unfolding check_escapee_def using a False by (auto simp add: c tg f1(1) Let_def)
    moreover have "\<forall>c. read_cell ?tm2 c = read_cell tm_obj c"
      using r1 by (simp add: read_cell_def)
    ultimately show ?thesis using False f1 by (intro exI[of _ ?tm2]) auto
  qed
qed

theorem check_escapee_behaviour_witness:
  "check_escapee (initial_tm t_pingpong 2 ''0'') =
     (Inr False, (initial_tm t_pingpong 2 ''0'')\<lparr>escapee_seen_positions := Some {0},
                                                 escapee_blank_run_count := 0\<rparr>) \<and>
   fst (check_escapee (tm_query1\<lparr>head_position := 2\<rparr>)) = Inr False \<and>
   escapee_blank_run_count (snd (check_escapee (tm_query1\<lparr>head_position := 2\<rparr>))) = 1 \<and>
   escapee_seen_positions (snd (check_escapee (tm_query1\<lparr>head_position := 2\<rparr>)))
     = Some {2, 1}"
proof -
  let ?tm = "tm_query1\<lparr>head_position := 2\<rparr>"
  have 1: "check_escapee (initial_tm t_pingpong 2 ''0'') =
     (Inr False, (initial_tm t_pingpong 2 ''0'')\<lparr>escapee_seen_positions := Some {0},
                                                 escapee_blank_run_count := 0\<rparr>)"
    using check_escapee_behaviour[of "initial_tm t_pingpong 2 ''0''"]
    by (simp add: initial_tm_def)
  have pre: "escapee_seen_positions ?tm = Some {1} \<and> INT_MIN \<le> head_position ?tm \<and>
             head_position ?tm \<le> INT_MAX"
    by (simp add: tm_query1_eq INT_MIN_def INT_MAX_def)
  from check_escapee_behaviour[of ?tm] pre
  obtain tm' where
    a: "check_escapee ?tm = (Inr (num_states ?tm < escapee_blank_run_count tm'), tm')"
    and b: "if read_cell ?tm (head_position ?tm) = blank_symbol ?tm \<and> head_position ?tm \<notin> {1}
          then escapee_blank_run_count tm' = escapee_blank_run_count ?tm + 1 \<and>
               escapee_seen_positions tm' = Some (insert (head_position ?tm) {1})
          else escapee_blank_run_count tm' = 0 \<and> escapee_seen_positions tm' = Some {1}"
    by blast
  have c: "read_cell ?tm (head_position ?tm) = blank_symbol ?tm \<and> head_position ?tm \<notin> {1}"
    by (simp add: tm_query1_eq read_cell_def cell_of_def)
  have d: "escapee_blank_run_count tm' = 1" "escapee_seen_positions tm' = Some {2, 1}"
    using b c by (simp_all add: tm_query1_eq)
  have e: "num_states ?tm = 2" by (simp add: tm_query1_eq)
  show ?thesis using 1 a d e by simp
qed


text \<open>
  C4 as stated fails on the machine of \<open>t_pingpong\<close>. Its first step leaves the head at
  cell \<open>1\<close>, blank and never occupied before, yet the first query leaves \<open>run\<close> at \<open>0\<close>.
  Its second step brings the head back to cell \<open>0\<close>, which now holds \<^verbatim>\<open>'1'\<close>; after the
  second query \<open>seen\<close> is \<open>{1}\<close>: it does not contain the cell \<open>0\<close> that the head
  occupies, and occupied at the start.
\<close>

theorem check_escapee_counterexample:
  "head_position tm_query1 = 1 \<and>
   read_cell tm_query1 1 = blank_symbol tm_query1 \<and>
   escapee_blank_run_count tm_query1 = 0 \<and>
   head_position tm_query2 = 0 \<and>
   escapee_seen_positions tm_query2 = Some {1} \<and>
   head_position tm_query2 \<notin> {1}"
  by (simp add: tm_query1_eq tm_query2_eq read_cell_def cell_of_def)

section \<open>Runners, period-2 loops and the history of the period-2 filter\<close>

lemma sem_eq_refl [simp]: "sem_eq a a"
  by (simp add: sem_eq_def)

lemma sem_eq_sym: "sem_eq a b \<Longrightarrow> sem_eq b a"
  by (simp add: sem_eq_def)

lemma sem_eq_trans: "sem_eq a b \<Longrightarrow> sem_eq b c \<Longrightarrow> sem_eq a c"
  by (simp add: sem_eq_def)

lemma read_cell_step_defined:
  "read_cell (tm_obj\<lparr>tape := (tape tm_obj)(h \<mapsto> w), current_state := ns, head_position := p,
                     min_visited := lo, max_visited := hi, steps_taken := k\<rparr>)
     = (read_cell tm_obj)(h := w)"
  by (rule ext) (simp add: read_cell_def)

lemma read_cell_step_undefined:
  "read_cell (tm_obj\<lparr>tape := (if tape tm_obj h = None then (tape tm_obj)(h \<mapsto> blank_symbol tm_obj)
                                 else tape tm_obj), current_state := s\<rparr>)
     = read_cell tm_obj"
  by (rule ext) (simp add: read_cell_def)

lemma cython_step_sem:
  obtains
    (stuck) "sem_eq (snd (cython_step tm_obj)) tm_obj"
      "current_state tm_obj = HALT_STATE \<or>
       \<not> (INT_MIN \<le> current_state tm_obj \<and> current_state tm_obj \<le> INT_MAX \<and>
          INT_MIN \<le> head_position tm_obj \<and> head_position tm_obj \<le> INT_MAX)"
  | (undefined) "current_state tm_obj \<noteq> HALT_STATE"
      "INT_MIN \<le> current_state tm_obj \<and> current_state tm_obj \<le> INT_MAX \<and>
          INT_MIN \<le> head_position tm_obj \<and> head_position tm_obj \<le> INT_MAX"
      "transition_table tm_obj (current_state tm_obj, read_cell tm_obj (head_position tm_obj)) = None"
      "transition_table (snd (cython_step tm_obj)) = transition_table tm_obj"
      "current_state (snd (cython_step tm_obj)) = HALT_STATE"
      "head_position (snd (cython_step tm_obj)) = head_position tm_obj"
      "read_cell (snd (cython_step tm_obj)) = read_cell tm_obj"
  | (defined) ns w mv where "current_state tm_obj \<noteq> HALT_STATE"
      "INT_MIN \<le> current_state tm_obj \<and> current_state tm_obj \<le> INT_MAX \<and>
          INT_MIN \<le> head_position tm_obj \<and> head_position tm_obj \<le> INT_MAX"
      "transition_table tm_obj (current_state tm_obj, read_cell tm_obj (head_position tm_obj))
         = Some (ns, w, mv)"
      "transition_table (snd (cython_step tm_obj)) = transition_table tm_obj"
      "current_state (snd (cython_step tm_obj)) = ns"
      "head_position (snd (cython_step tm_obj)) = head_position tm_obj + mv"
      "read_cell (snd (cython_step tm_obj)) = (read_cell tm_obj)(head_position tm_obj := w)"
proof (cases tm_obj rule: cython_step_cases)
  case (error e)
  then show ?thesis using stuck by simp
next
  case halted
  then show ?thesis using stuck by simp
next
  case undefined
  have r: "INT_MIN \<le> current_state tm_obj \<and> current_state tm_obj \<le> INT_MAX \<and>
          INT_MIN \<le> head_position tm_obj \<and> head_position tm_obj \<le> INT_MAX"
  proof (rule ccontr)
    assume n: "\<not> ?thesis"
    then have "\<exists>e. cython_step tm_obj = (Inl e, tm_obj)"
      by (cases "to_c_int (current_state tm_obj)"; cases "to_c_int (head_position tm_obj)")
         (auto simp: cython_step_error1 cython_step_error2 to_c_int_def split: if_splits)
    then show False using undefined(3) by auto
  qed
  show ?thesis
    using that(2)[OF undefined(1) r undefined(2)] undefined(3)
    by (simp add: read_cell_step_undefined)
next
  case (defined ns w mv)
  have r: "INT_MIN \<le> current_state tm_obj \<and> current_state tm_obj \<le> INT_MAX \<and>
          INT_MIN \<le> head_position tm_obj \<and> head_position tm_obj \<le> INT_MAX"
  proof (rule ccontr)
    assume n: "\<not> ?thesis"
    then have "\<exists>e. cython_step tm_obj = (Inl e, tm_obj)"
      by (cases "to_c_int (current_state tm_obj)"; cases "to_c_int (head_position tm_obj)")
         (auto simp: cython_step_error1 cython_step_error2 to_c_int_def split: if_splits)
    then show False using defined(5) by auto
  qed
  show ?thesis
    using that(3)[OF defined(1) r defined(4)] defined(5)
    by (simp add: read_cell_step_defined)
qed

lemma sem_eq_step:
  assumes "sem_eq a b"
  shows "sem_eq (snd (cython_step a)) (snd (cython_step b))"
proof -
  have e: "transition_table a = transition_table b" "current_state a = current_state b"
    "head_position a = head_position b" "read_cell a = read_cell b"
    using assms by (simp_all add: sem_eq_def)
  show ?thesis
  proof (cases a rule: cython_step_sem)
    case stuck
    then have "current_state b = HALT_STATE \<or>
       \<not> (INT_MIN \<le> current_state b \<and> current_state b \<le> INT_MAX \<and>
          INT_MIN \<le> head_position b \<and> head_position b \<le> INT_MAX)"
      using e by simp
    then have "sem_eq (snd (cython_step b)) b"
      by (cases b rule: cython_step_sem) auto
    then show ?thesis using stuck(1) assms
      by (meson sem_eq_sym sem_eq_trans)
  next
    case undefined
    show ?thesis
    proof (cases b rule: cython_step_sem)
      case stuck
      then show ?thesis using undefined e by simp
    next
      case u: undefined
      then show ?thesis using undefined e by (simp add: sem_eq_def)
    next
      case (defined ns w mv)
      then show ?thesis using undefined e by simp
    qed
  next
    case (defined ns w mv)
    show ?thesis
    proof (cases b rule: cython_step_sem)
      case stuck
      then show ?thesis using defined e by simp
    next
      case undefined
      then show ?thesis using defined e by simp
    next
      case d: (defined ns' w' mv')
      then show ?thesis using defined e by (simp add: sem_eq_def)
    qed
  qed
qed

lemma sem_eq_steps:
  "sem_eq a b \<Longrightarrow> sem_eq (cython_steps m a) (cython_steps m b)"
  by (induction m) (simp_all add: cython_steps_Suc sem_eq_step)

lemma never_halts_sem_eq:
  assumes "sem_eq a b" "never_halts a"
  shows "never_halts b"
  unfolding never_halts_def
proof
  fix m
  have "current_state (cython_steps m b) = current_state (cython_steps m a)"
    using sem_eq_steps[OF assms(1), of m] by (simp add: sem_eq_def)
  then show "current_state (cython_steps m b) \<noteq> HALT_STATE"
    using assms(2) by (simp add: never_halts_def)
qed

lemma never_halts_steps:
  assumes "never_halts a"
  shows "never_halts (cython_steps t a)"
  unfolding never_halts_def
proof
  fix m
  have "cython_steps m (cython_steps t a) = cython_steps (t + m) a"
    by (simp add: cython_steps_add)
  then show "current_state (cython_steps m (cython_steps t a)) \<noteq> HALT_STATE"
    using assms by (simp add: never_halts_def)
qed

lemma never_halts_invariant:
  assumes "P a"
    and "\<And>t. P t \<Longrightarrow> current_state t \<noteq> HALT_STATE \<and> P (snd (cython_step t))"
  shows "never_halts a"
proof -
  have "P (cython_steps m a)" for m
    by (induction m) (simp_all add: assms cython_steps_Suc)
  then show ?thesis unfolding never_halts_def using assms(2) by blast
qed

lemma runner_inv_step:
  assumes "runner_inv d B t"
  shows "current_state t \<noteq> HALT_STATE \<and> runner_inv d B (snd (cython_step t))"
proof -
  let ?b = "blank_symbol t"
  let ?h = "head_position t"
  have d: "d = 1 \<or> d = - 1" and sB: "current_state t \<in> B" and zB: "0 \<notin> B"
    and cl: "\<forall>s \<in> B. \<exists>s' w. transition_table t (s, ?b) = Some (s', w, d) \<and> s' \<in> B"
    and bl: "\<forall>c. 0 \<le> (c - ?h) * d \<longrightarrow> read_cell t c = ?b"
    using assms by (simp_all add: runner_inv_def)
  have nz: "current_state t \<noteq> HALT_STATE" using sB zB by auto
  have rh: "read_cell t ?h = ?b" using bl by simp
  from cl sB obtain s' w where tr: "transition_table t (current_state t, ?b) = Some (s', w, d)"
    and s': "s' \<in> B" by blast
  have "runner_inv d B (snd (cython_step t))"
  proof (cases t rule: cython_step_cases)
    case (error e)
    then show ?thesis using assms by simp
  next
    case halted
    then show ?thesis using assms by simp
  next
    case undefined
    then show ?thesis using tr rh by simp
  next
    case (defined ns w' mv)
    then have eq: "ns = s'" "w' = w" "mv = d" using tr rh by simp_all
    have "\<forall>c. 0 \<le> (c - (?h + d)) * d \<longrightarrow> ((read_cell t)(?h := w)) c = ?b"
    proof (intro allI impI)
      fix c assume a: "0 \<le> (c - (?h + d)) * d"
      have "c \<noteq> ?h" using a d by auto
      moreover have "0 \<le> (c - ?h) * d" using a d by (auto simp: algebra_simps)
      ultimately show "((read_cell t)(?h := w)) c = ?b" using bl by simp
    qed
    then show ?thesis
      unfolding runner_inv_def defined(5) eq
      using d s' zB cl by (simp add: read_cell_step_defined)
  qed
  then show ?thesis using nz by simp
qed

lemma runner_never_halts: "runner_inv d B a \<Longrightarrow> never_halts a"
  by (rule never_halts_invariant[where P = "runner_inv d B"]) (simp_all add: runner_inv_step)

lemma halted_stays:
  "current_state t = HALT_STATE \<Longrightarrow> current_state (snd (cython_step t)) = HALT_STATE"
  by (cases t rule: cython_step_cases) simp_all

lemma period_two_never_halts:
  assumes p: "sem_eq (cython_steps 2 a) a" and nz: "current_state a \<noteq> HALT_STATE"
  shows "never_halts a"
proof -
  have ev: "sem_eq (cython_steps (2 * k) a) a" for k
  proof (induction k)
    case 0
    show ?case by simp
  next
    case (Suc k)
    have "cython_steps (2 * Suc k) a = cython_steps 2 (cython_steps (2 * k) a)"
      using cython_steps_add[of "2 * k" 2 a] by simp
    then have "sem_eq (cython_steps (2 * Suc k) a) (cython_steps 2 a)"
      using sem_eq_steps[OF Suc, of 2] by simp
    then show ?case using p by (rule sem_eq_trans)
  qed
  have st: "current_state (cython_steps (2 * k) a) \<noteq> HALT_STATE" for k
    using ev[of k] nz by (simp add: sem_eq_def)
  show ?thesis
    unfolding never_halts_def
  proof
    fix m
    show "current_state (cython_steps m a) \<noteq> HALT_STATE"
    proof (cases "even m")
      case True
      then obtain k where "m = 2 * k" by (auto elim: evenE)
      then show ?thesis using st by simp
    next
      case False
      then obtain k where m: "m = Suc (2 * k)" by (auto elim: oddE)
      show ?thesis
      proof
        assume "current_state (cython_steps m a) = HALT_STATE"
        then have "current_state (cython_steps (Suc m) a) = HALT_STATE"
          by (simp add: cython_steps_Suc halted_stays)
        moreover have "Suc m = 2 * Suc k" using m by simp
        ultimately show False using st[of "Suc k"] by simp
      qed
    qed
  qed
qed

lemma cython_step_fields [simp]:
  "transition_table (snd (cython_step t)) = transition_table t"
  "blank_symbol (snd (cython_step t)) = blank_symbol t"
  "num_states (snd (cython_step t)) = num_states t"
  "escapee_seen_positions (snd (cython_step t)) = escapee_seen_positions t"
  "escapee_blank_run_count (snd (cython_step t)) = escapee_blank_run_count t"
  "cycle_history (snd (cython_step t)) = cycle_history t"
  by (cases t rule: cython_step_cases; simp)+

lemma cython_steps_table [simp]:
  "transition_table (cython_steps m t) = transition_table t"
  by (induction m) (simp_all add: cython_steps_Suc)

lemma cyc_recD:
  assumes "cyc_rec j t h" "i < length h"
  obtains x where "h ! i = (current_state x, head_position x, Map.graph (tape x))"
    "blank_symbol x = blank_symbol t" "sem_eq (cython_steps (length h - 1 - i + j) x) t"
    "0 < length h - 1 - i + j \<Longrightarrow> current_state x \<noteq> HALT_STATE"
proof -
  from assms(1) have "\<forall>i < length h. \<exists>x.
        h ! i = (current_state x, head_position x, Map.graph (tape x)) \<and>
        blank_symbol x = blank_symbol t \<and>
        sem_eq (cython_steps (length h - 1 - i + j) x) t \<and>
        (0 < length h - 1 - i + j \<longrightarrow> current_state x \<noteq> HALT_STATE)"
    unfolding cyc_rec_def .
  then have "i < length h \<longrightarrow> (\<exists>x.
        h ! i = (current_state x, head_position x, Map.graph (tape x)) \<and>
        blank_symbol x = blank_symbol t \<and>
        sem_eq (cython_steps (length h - 1 - i + j) x) t \<and>
        (0 < length h - 1 - i + j \<longrightarrow> current_state x \<noteq> HALT_STATE))"
    by (rule spec)
  then have "\<exists>x.
        h ! i = (current_state x, head_position x, Map.graph (tape x)) \<and>
        blank_symbol x = blank_symbol t \<and>
        sem_eq (cython_steps (length h - 1 - i + j) x) t \<and>
        (0 < length h - 1 - i + j \<longrightarrow> current_state x \<noteq> HALT_STATE)"
    using assms(2) by (rule mp)
  then obtain x where x: "h ! i = (current_state x, head_position x, Map.graph (tape x)) \<and>
        blank_symbol x = blank_symbol t \<and>
        sem_eq (cython_steps (length h - 1 - i + j) x) t \<and>
        (0 < length h - 1 - i + j \<longrightarrow> current_state x \<noteq> HALT_STATE)" ..
  show ?thesis
  proof (rule that[of x])
    show "h ! i = (current_state x, head_position x, Map.graph (tape x))"
      using x by (rule conjunct1)
    show "blank_symbol x = blank_symbol t"
      using x by (rule conjunct2[THEN conjunct1])
    show "sem_eq (cython_steps (length h - 1 - i + j) x) t"
      using x by (rule conjunct2[THEN conjunct2, THEN conjunct1])
    show "current_state x \<noteq> HALT_STATE" if "0 < length h - 1 - i + j"
      using x that by (elim conjE impE) assumption+
  qed
qed

lemma cyc_recI:
  assumes "\<And>i. i < length h \<Longrightarrow> \<exists>x.
        h ! i = (current_state x, head_position x, Map.graph (tape x)) \<and>
        blank_symbol x = blank_symbol t \<and>
        sem_eq (cython_steps (length h - 1 - i + j) x) t \<and>
        (0 < length h - 1 - i + j \<longrightarrow> current_state x \<noteq> HALT_STATE)"
  shows "cyc_rec j t h"
  unfolding cyc_rec_def using assms by (intro allI impI)

lemma cyc_rec_step:
  assumes "cyc_rec 0 t h" "current_state t \<noteq> HALT_STATE"
  shows "cyc_rec 1 (snd (cython_step t)) h"
proof (rule cyc_recI)
  fix i assume i: "i < length h"
  from cyc_recD[OF assms(1) i] obtain x where
    x: "h ! i = (current_state x, head_position x, Map.graph (tape x))"
    "blank_symbol x = blank_symbol t" "sem_eq (cython_steps (length h - 1 - i + 0) x) t"
    "0 < length h - 1 - i + 0 \<Longrightarrow> current_state x \<noteq> HALT_STATE"
    by metis
  have x3: "sem_eq (cython_steps (length h - 1 - i) x) t" using x(3) by simp
  have s: "sem_eq (cython_steps (length h - 1 - i + 1) x) (snd (cython_step t))"
    using sem_eq_step[OF x3] by (simp add: cython_steps_Suc)
  have nz: "current_state x \<noteq> HALT_STATE"
  proof (cases "0 < length h - 1 - i")
    case True
    then show ?thesis using x(4) by simp
  next
    case False
    then have "sem_eq x t" using x3 by simp
    then show ?thesis using assms(2) by (simp add: sem_eq_def)
  qed
  show "\<exists>x. h ! i = (current_state x, head_position x, Map.graph (tape x)) \<and>
        blank_symbol x = blank_symbol (snd (cython_step t)) \<and>
        sem_eq (cython_steps (length h - 1 - i + 1) x) (snd (cython_step t)) \<and>
        (0 < length h - 1 - i + 1 \<longrightarrow> current_state x \<noteq> HALT_STATE)"
  proof (intro exI[of _ x] conjI impI)
    show "h ! i = (current_state x, head_position x, Map.graph (tape x))" by (rule x(1))
    show "blank_symbol x = blank_symbol (snd (cython_step t))" using x(2) by simp
    show "sem_eq (cython_steps (length h - 1 - i + 1) x) (snd (cython_step t))" by (rule s)
    show "current_state x \<noteq> HALT_STATE" by (rule nz)
  qed
qed

lemma cyc_rec_sem:
  assumes "cyc_rec j t h" "sem_eq t t'" "blank_symbol t' = blank_symbol t"
  shows "cyc_rec j t' h"
proof (rule cyc_recI)
  fix i assume i: "i < length h"
  from cyc_recD[OF assms(1) i] obtain x where
    x: "h ! i = (current_state x, head_position x, Map.graph (tape x))"
    "blank_symbol x = blank_symbol t" "sem_eq (cython_steps (length h - 1 - i + j) x) t"
    "0 < length h - 1 - i + j \<Longrightarrow> current_state x \<noteq> HALT_STATE"
    by metis
  show "\<exists>x. h ! i = (current_state x, head_position x, Map.graph (tape x)) \<and>
        blank_symbol x = blank_symbol t' \<and>
        sem_eq (cython_steps (length h - 1 - i + j) x) t' \<and>
        (0 < length h - 1 - i + j \<longrightarrow> current_state x \<noteq> HALT_STATE)"
  proof (intro exI[of _ x] conjI impI)
    show "h ! i = (current_state x, head_position x, Map.graph (tape x))" by (rule x(1))
    show "blank_symbol x = blank_symbol t'" using x(2) assms(3) by simp
    show "sem_eq (cython_steps (length h - 1 - i + j) x) t'"
      using x(3) assms(2) by (rule sem_eq_trans)
    show "current_state x \<noteq> HALT_STATE" if "0 < length h - 1 - i + j"
      using x(4) that by simp
  qed
qed

lemma cyc_rec_append:
  assumes "cyc_rec 1 t h"
  shows "cyc_rec 0 t (h @ [(current_state t, head_position t, Map.graph (tape t))])"
proof (rule cyc_recI)
  let ?l = "h @ [(current_state t, head_position t, Map.graph (tape t))]"
  fix i assume i: "i < length ?l"
  show "\<exists>x. ?l ! i = (current_state x, head_position x, Map.graph (tape x)) \<and>
        blank_symbol x = blank_symbol t \<and>
        sem_eq (cython_steps (length ?l - 1 - i + 0) x) t \<and>
        (0 < length ?l - 1 - i + 0 \<longrightarrow> current_state x \<noteq> HALT_STATE)"
  proof (cases "i < length h")
    case True
    from cyc_recD[OF assms True] obtain x where
      x: "h ! i = (current_state x, head_position x, Map.graph (tape x))"
      "blank_symbol x = blank_symbol t" "sem_eq (cython_steps (length h - 1 - i + 1) x) t"
      "0 < length h - 1 - i + 1 \<Longrightarrow> current_state x \<noteq> HALT_STATE"
      by metis
    have n: "length ?l - 1 - i + 0 = length h - 1 - i + 1" using True by simp
    have li: "?l ! i = h ! i" using True by (simp add: nth_append)
    show ?thesis
      unfolding n li
    proof (intro exI[of _ x] conjI impI)
      show "h ! i = (current_state x, head_position x, Map.graph (tape x))" by (rule x(1))
      show "blank_symbol x = blank_symbol t" by (rule x(2))
      show "sem_eq (cython_steps (length h - 1 - i + 1) x) t" by (rule x(3))
      show "current_state x \<noteq> HALT_STATE" using x(4) by simp
    qed
  next
    case False
    then have il: "i = length h" using i by simp
    have n: "length ?l - 1 - i + 0 = 0" using il by simp
    have li: "?l ! i = (current_state t, head_position t, Map.graph (tape t))"
      using il by simp
    show ?thesis
      unfolding n li
    proof (intro exI[of _ t] conjI impI)
      show "sem_eq (cython_steps 0 t) t" by simp
    qed simp_all
  qed
qed

lemma cyc_rec_drop:
  assumes "cyc_rec j t l"
  shows "cyc_rec j t (drop k l)"
proof (rule cyc_recI)
  fix i assume i: "i < length (drop k l)"
  then have ki: "k + i < length l" by simp
  from cyc_recD[OF assms ki] obtain x where
    x: "l ! (k + i) = (current_state x, head_position x, Map.graph (tape x))"
    "blank_symbol x = blank_symbol t" "sem_eq (cython_steps (length l - 1 - (k + i) + j) x) t"
    "0 < length l - 1 - (k + i) + j \<Longrightarrow> current_state x \<noteq> HALT_STATE"
    by metis
  have n: "length (drop k l) - 1 - i = length l - 1 - (k + i)" by simp
  have li: "drop k l ! i = l ! (k + i)" using ki by simp
  show "\<exists>x. drop k l ! i = (current_state x, head_position x, Map.graph (tape x)) \<and>
        blank_symbol x = blank_symbol t \<and>
        sem_eq (cython_steps (length (drop k l) - 1 - i + j) x) t \<and>
        (0 < length (drop k l) - 1 - i + j \<longrightarrow> current_state x \<noteq> HALT_STATE)"
    unfolding n li
  proof (intro exI[of _ x] conjI impI)
    show "l ! (k + i) = (current_state x, head_position x, Map.graph (tape x))" by (rule x(1))
    show "blank_symbol x = blank_symbol t" by (rule x(2))
    show "sem_eq (cython_steps (length l - 1 - (k + i) + j) x) t" by (rule x(3))
    show "current_state x \<noteq> HALT_STATE" if "0 < length l - 1 - (k + i) + j"
      using x(4) that by simp
  qed
qed

lemma check_cycle_two_sound:
  assumes "cyc_inv 1 t" "check_cycle_two t = (res, t')"
  shows "(res \<longrightarrow> never_halts t') \<and> cyc_inv 0 t'"
proof -
  let ?cfg = "(current_state t, head_position t, Map.graph (tape t))"
  define old where "old = (case cycle_history t of None \<Rightarrow> [] | Some h \<Rightarrow> h)"
  define l where "l = deque_append 3 old ?cfg"
  have res: "res = (length l = 3 \<and> l ! 0 = l ! 2)" and t': "t' = t\<lparr>cycle_history := Some l\<rparr>"
    using assms(2) unfolding check_cycle_two_def Let_def l_def old_def by simp_all
  have se: "sem_eq t t'" "blank_symbol t' = blank_symbol t"
    unfolding t' by (simp_all add: sem_eq_def read_cell_def fun_eq_iff)
  have "cyc_rec 1 t old" using assms(1) by (simp add: cyc_inv_def old_def)
  then have "cyc_rec 0 t (old @ [?cfg])" by (rule cyc_rec_append)
  then have rl: "cyc_rec 0 t l" unfolding l_def deque_append_def by (rule cyc_rec_drop)
  then have "cyc_rec 0 t' l" using se by (rule cyc_rec_sem)
  then have inv: "cyc_inv 0 t'" by (simp add: cyc_inv_def t')
  have "never_halts t'" if r: "res"
  proof -
    have len: "length l = 3" and eq: "l ! 0 = l ! 2" using r res by simp_all
    have "l \<noteq> []" using len by auto
    then have "last l = l ! 2" using len by (simp add: last_conv_nth)
    then have l2: "l ! 2 = ?cfg" unfolding l_def by (simp add: deque_append_props)
    have l0: "0 < length l" using len by simp
    from cyc_recD[OF rl l0] obtain x where x: "l ! 0 = (current_state x, head_position x, Map.graph (tape x))"
      "blank_symbol x = blank_symbol t" "sem_eq (cython_steps (length l - 1 - 0 + 0) x) t"
      "0 < length l - 1 - 0 + 0 \<Longrightarrow> current_state x \<noteq> HALT_STATE"
      by metis
    have s2: "sem_eq (cython_steps 2 x) t" and nz: "current_state x \<noteq> HALT_STATE"
      using x(3,4) len by simp_all
    have c: "current_state x = current_state t" "head_position x = head_position t"
      "Map.graph (tape x) = Map.graph (tape t)"
      using x(1) eq l2 by simp_all
    have tp: "tape x = tape t" using c(3) by (rule graph_eq_imp_eq)
    have tb: "transition_table x = transition_table t"
      using s2 by (simp add: sem_eq_def)
    have xt: "sem_eq x t"
    proof -
      have "read_cell x = read_cell t"
        by (rule ext) (simp add: read_cell_def tp x(2))
      then show ?thesis using c tb by (simp add: sem_eq_def)
    qed
    have "sem_eq (cython_steps 2 x) x" using s2 sem_eq_sym[OF xt] by (rule sem_eq_trans)
    then have "never_halts x" using nz by (rule period_two_never_halts)
    then have "never_halts t" using xt never_halts_sem_eq by blast
    then show ?thesis using se(1) never_halts_sem_eq by blast
  qed
  then show ?thesis using inv by simp
qed


section \<open>The escapee filter: the invariant of its state, and the run loop\<close>

lemma esc_geomD:
  assumes "esc_geom n table b st h lo hi f r S"
  shows "lo \<le> h" "h \<le> hi" "lo \<le> 0" "0 \<le> hi" "lo < hi"
    "\<And>c. c < lo \<or> hi < c \<Longrightarrow> f c = b"
    "\<And>c. c \<in> S \<Longrightarrow> lo \<le> c \<and> c \<le> hi"
    "\<And>c. lo \<le> c \<Longrightarrow> c \<le> hi \<Longrightarrow> c \<noteq> 0 \<Longrightarrow> c \<in> S"
    "r = 0 \<or> (1 \<le> r \<and> f h = b \<and> h \<in> S \<and> esc_run n table b st h lo hi r S)"
proof -
  from assms have a: "lo \<le> h \<and> h \<le> hi \<and> lo \<le> 0 \<and> 0 \<le> hi \<and> lo < hi \<and>
      (\<forall>c. c < lo \<or> hi < c \<longrightarrow> f c = b) \<and>
      (\<forall>c \<in> S. lo \<le> c \<and> c \<le> hi) \<and>
      (\<forall>c. lo \<le> c \<and> c \<le> hi \<and> c \<noteq> 0 \<longrightarrow> c \<in> S) \<and>
      (r = 0 \<or> (1 \<le> r \<and> f h = b \<and> h \<in> S \<and> esc_run n table b st h lo hi r S))"
    unfolding esc_geom_def .
  show "lo \<le> h" using a by (elim conjE)
  show "h \<le> hi" using a by (elim conjE)
  show "lo \<le> 0" using a by (elim conjE)
  show "0 \<le> hi" using a by (elim conjE)
  show "lo < hi" using a by (elim conjE)
  have 6: "\<forall>c. c < lo \<or> hi < c \<longrightarrow> f c = b" using a by (elim conjE)
  show "f c = b" if "c < lo \<or> hi < c" for c using 6 that by (elim allE[of _ c] impE)
  have 7: "\<forall>c \<in> S. lo \<le> c \<and> c \<le> hi" using a by (elim conjE)
  show "lo \<le> c \<and> c \<le> hi" if "c \<in> S" for c using 7 that by (rule bspec)
  have 8: "\<forall>c. lo \<le> c \<and> c \<le> hi \<and> c \<noteq> 0 \<longrightarrow> c \<in> S" using a by (elim conjE)
  show "c \<in> S" if "lo \<le> c" "c \<le> hi" "c \<noteq> 0" for c
  proof -
    have "lo \<le> c \<and> c \<le> hi \<and> c \<noteq> 0" using that by (intro conjI)
    then show ?thesis using 8 by (elim allE[of _ c] impE)
  qed
  show "r = 0 \<or> (1 \<le> r \<and> f h = b \<and> h \<in> S \<and> esc_run n table b st h lo hi r S)"
    using a by (elim conjE)
qed

lemma esc_geomI:
  assumes "lo \<le> h" "h \<le> hi" "lo \<le> 0" "0 \<le> hi" "lo < hi"
    "\<And>c. c < lo \<or> hi < c \<Longrightarrow> f c = b"
    "\<And>c. c \<in> S \<Longrightarrow> lo \<le> c \<and> c \<le> hi"
    "\<And>c. lo \<le> c \<Longrightarrow> c \<le> hi \<Longrightarrow> c \<noteq> 0 \<Longrightarrow> c \<in> S"
    "r = 0 \<or> (1 \<le> r \<and> f h = b \<and> h \<in> S \<and> esc_run n table b st h lo hi r S)"
  shows "esc_geom n table b st h lo hi f r S"
  unfolding esc_geom_def
proof (intro conjI)
  show "\<forall>c. c < lo \<or> hi < c \<longrightarrow> f c = b" using assms(6) by (intro allI impI)
  show "\<forall>c\<in>S. lo \<le> c \<and> c \<le> hi" using assms(7) by (intro ballI)
  show "\<forall>c. lo \<le> c \<and> c \<le> hi \<and> c \<noteq> 0 \<longrightarrow> c \<in> S"
  proof (intro allI impI)
    fix c assume "lo \<le> c \<and> c \<le> hi \<and> c \<noteq> 0"
    then show "c \<in> S" using assms(8)[of c] by (elim conjE)
  qed
qed (rule assms)+

lemma esc_geom_reset:
  assumes G: "esc_geom n table b st h lo hi f r S" and mv: "mv = 1 \<or> mv = - 1"
    and no: "\<not> ((f(h := w)) (h + mv) = b \<and> h + mv \<notin> S)"
  shows "esc_geom n table b ns (h + mv) (min lo (h + mv)) (max hi (h + mv)) (f(h := w)) 0 S"
proof -
  note g = esc_geomD[OF G]
  have ne: "h + mv \<noteq> h" using mv by auto
  have ins: "lo \<le> h + mv \<and> h + mv \<le> hi"
  proof (rule ccontr)
    assume "\<not> ?thesis"
    then have out: "h + mv < lo \<or> hi < h + mv" by linarith
    then have "f (h + mv) = b" by (rule g(6))
    moreover have "h + mv \<notin> S" using g(7)[of "h + mv"] out by linarith
    ultimately show False using no ne by simp
  qed
  have mm: "min lo (h + mv) = lo" "max hi (h + mv) = hi" using ins by simp_all
  show ?thesis
    unfolding mm
  proof (rule esc_geomI)
    show "(f(h := w)) c = b" if "c < lo \<or> hi < c" for c
    proof -
      have "c \<noteq> h" using that g(1,2) by linarith
      then show ?thesis using g(6)[OF that] by simp
    qed
    show "lo \<le> h + mv" "h + mv \<le> hi" using ins by simp_all
    show "lo \<le> 0" "0 \<le> hi" "lo < hi" by (rule g)+
    show "lo \<le> c \<and> c \<le> hi" if "c \<in> S" for c using that by (rule g(7))
    show "c \<in> S" if "lo \<le> c" "c \<le> hi" "c \<noteq> 0" for c using that by (rule g(8))
    show "0 = 0 \<or> (1 \<le> 0 \<and> (f(h := w)) (h + mv) = b \<and> h + mv \<in> S \<and>
       esc_run n table b ns (h + mv) lo hi 0 S)" by simp
  qed
qed

lemma esc_geom_base:
  assumes G: "esc_geom n table b st h lo hi f r S" and mv: "mv = 1 \<or> mv = - 1"
  shows "min lo (h + mv) \<le> h + mv" "h + mv \<le> max hi (h + mv)"
    "min lo (h + mv) \<le> 0" "0 \<le> max hi (h + mv)" "min lo (h + mv) < max hi (h + mv)"
    "\<And>c. c < min lo (h + mv) \<or> max hi (h + mv) < c \<Longrightarrow> (f(h := w)) c = b"
    "\<And>c. c \<in> insert (h + mv) S \<Longrightarrow> min lo (h + mv) \<le> c \<and> c \<le> max hi (h + mv)"
    "\<And>c. min lo (h + mv) \<le> c \<Longrightarrow> c \<le> max hi (h + mv) \<Longrightarrow> c \<noteq> 0 \<Longrightarrow> c \<in> insert (h + mv) S"
proof -
  note g = esc_geomD[OF G]
  show "min lo (h + mv) \<le> h + mv" "h + mv \<le> max hi (h + mv)" by simp_all
  show "min lo (h + mv) \<le> 0" "0 \<le> max hi (h + mv)" using g(3,4) by simp_all
  show "min lo (h + mv) < max hi (h + mv)" using g(5) by simp
  show "(f(h := w)) c = b" if "c < min lo (h + mv) \<or> max hi (h + mv) < c" for c
  proof -
    have o: "c < lo \<or> hi < c" using that by linarith
    have "c \<noteq> h" using o g(1,2) by linarith
    then show ?thesis using g(6)[OF o] by simp
  qed
  show "min lo (h + mv) \<le> c \<and> c \<le> max hi (h + mv)" if "c \<in> insert (h + mv) S" for c
  proof (cases "c = h + mv")
    case True
    then show ?thesis by simp
  next
    case False
    then have "c \<in> S" using that by simp
    then have "lo \<le> c \<and> c \<le> hi" by (rule g(7))
    then show ?thesis by linarith
  qed
  show "c \<in> insert (h + mv) S"
    if "min lo (h + mv) \<le> c" "c \<le> max hi (h + mv)" "c \<noteq> 0" for c
  proof (cases "lo \<le> c \<and> c \<le> hi")
    case True
    then show ?thesis using g(8)[of c] that(3) by simp
  next
    case False
    have "c = h + mv" using False that(1,2) g(1,2) mv by linarith
    then show ?thesis by simp
  qed
qed

lemma esc_runI:
  assumes "d = 1 \<or> d = - 1" "B \<subseteq> {1..n}"
    "\<And>s. s \<in> B \<Longrightarrow> \<exists>s' w. table (s, b) = Some (s', w, d) \<and> s' \<in> insert st B"
    "int (card B) \<le> r - 1"
    "st \<in> B \<or> int (card B) = r - 1"
    "(2 \<le> hi - lo \<and> (d = 1 \<and> h = hi \<or> d = - 1 \<and> h = lo) \<and> (2 \<le> r \<longrightarrow> h - d \<in> S)) \<or>
     (h = 0 \<and> r = 1) \<or>
     (h = 0 \<and> r = 2 \<and> lo < 0 \<and> 0 < hi)"
  shows "esc_run n table b st h lo hi r S"
  unfolding esc_run_def
proof (intro exI[of _ d] exI[of _ B] conjI)
  show "\<forall>s\<in>B. \<exists>s' w. table (s, b) = Some (s', w, d) \<and> s' \<in> insert st B"
    using assms(3) by (intro ballI)
qed (rule assms)+

lemma esc_runD:
  assumes "esc_run n table b st h lo hi r S"
  obtains d B where "d = 1 \<or> d = - 1" "B \<subseteq> {1..n}"
    "\<And>s. s \<in> B \<Longrightarrow> \<exists>s' w. table (s, b) = Some (s', w, d) \<and> s' \<in> insert st B"
    "int (card B) \<le> r - 1"
    "st \<in> B \<or> int (card B) = r - 1"
    "(2 \<le> hi - lo \<and> (d = 1 \<and> h = hi \<or> d = - 1 \<and> h = lo) \<and> (2 \<le> r \<longrightarrow> h - d \<in> S)) \<or>
     (h = 0 \<and> r = 1) \<or>
     (h = 0 \<and> r = 2 \<and> lo < 0 \<and> 0 < hi)"
proof -
  from assms obtain d B where a: "(d = 1 \<or> d = - 1) \<and> B \<subseteq> {1..n} \<and>
        (\<forall>s \<in> B. \<exists>s' w. table (s, b) = Some (s', w, d) \<and> s' \<in> insert st B) \<and>
        int (card B) \<le> r - 1 \<and>
        (st \<in> B \<or> int (card B) = r - 1) \<and>
        ((2 \<le> hi - lo \<and> (d = 1 \<and> h = hi \<or> d = - 1 \<and> h = lo) \<and> (2 \<le> r \<longrightarrow> h - d \<in> S)) \<or>
         (h = 0 \<and> r = 1) \<or>
         (h = 0 \<and> r = 2 \<and> lo < 0 \<and> 0 < hi))"
    unfolding esc_run_def by (elim exE)
  show ?thesis
  proof (rule that[of d B])
    show "d = 1 \<or> d = - 1" using a by (elim conjE)
    show "B \<subseteq> {1..n}" using a by (elim conjE)
    have 3: "\<forall>s \<in> B. \<exists>s' w. table (s, b) = Some (s', w, d) \<and> s' \<in> insert st B"
      using a by (elim conjE)
    show "\<exists>s' w. table (s, b) = Some (s', w, d) \<and> s' \<in> insert st B" if "s \<in> B" for s
      using 3 that by (rule bspec)
    show "int (card B) \<le> r - 1" using a by (elim conjE)
    show "st \<in> B \<or> int (card B) = r - 1" using a by (elim conjE)
    show "(2 \<le> hi - lo \<and> (d = 1 \<and> h = hi \<or> d = - 1 \<and> h = lo) \<and> (2 \<le> r \<longrightarrow> h - d \<in> S)) \<or>
     (h = 0 \<and> r = 1) \<or>
     (h = 0 \<and> r = 2 \<and> lo < 0 \<and> 0 < hi)" using a by (elim conjE)
  qed
qed

text \<open>Adding the present state to the states of the run.\<close>

lemma run_states_extend:
  fixes n st ns d r :: int and table :: tm_table
  assumes B: "B \<subseteq> {1..n}" and st: "1 \<le> st" "st \<le> n"
    and cl0: "\<forall>s \<in> B. \<exists>s' w. table (s, b) = Some (s', w, d) \<and> s' \<in> insert st B"
    and c1: "int (card B) \<le> r - 1" and c2: "st \<in> B \<or> int (card B) = r - 1"
    and tr: "table (st, b) = Some (ns, w, d)"
  shows "insert st B \<subseteq> {1..n}"
    "\<forall>s \<in> insert st B. \<exists>s' w. table (s, b) = Some (s', w, d) \<and> s' \<in> insert ns (insert st B)"
    "int (card (insert st B)) \<le> (r + 1) - 1"
    "ns \<in> insert st B \<or> int (card (insert st B)) = (r + 1) - 1"
proof -
  have fin: "finite B" using B by (rule finite_subset) simp
  have cl: "\<exists>s' w. table (s, b) = Some (s', w, d) \<and> s' \<in> insert st B" if "s \<in> B" for s
    using cl0 that by (rule bspec)
  show "insert st B \<subseteq> {1..n}" using B st by simp
  have "\<exists>s' w. table (s, b) = Some (s', w, d) \<and> s' \<in> insert ns (insert st B)"
    if "s \<in> insert st B" for s
  proof (cases "s = st")
    case True
    then show ?thesis using tr by simp
  next
    case False
    then have "s \<in> B" using that by simp
    from cl[OF this] obtain s' w' where "table (s, b) = Some (s', w', d)" "s' \<in> insert st B"
      by blast
    then show ?thesis by auto
  qed
  then show "\<forall>s \<in> insert st B. \<exists>s' w. table (s, b) = Some (s', w, d) \<and> s' \<in> insert ns (insert st B)"
    by (intro ballI)
  show "int (card (insert st B)) \<le> (r + 1) - 1"
  proof (cases "st \<in> B")
    case True
    then have "insert st B = B" by auto
    then show ?thesis using c1 by simp
  next
    case False
    then have "card (insert st B) = Suc (card B)" using fin by simp
    then show ?thesis using c1 by simp
  qed
  show "ns \<in> insert st B \<or> int (card (insert st B)) = (r + 1) - 1"
  proof (cases "st \<in> B")
    case True
    from cl[OF True] obtain s' w' where "table (st, b) = Some (s', w', d)" "s' \<in> insert st B"
      by blast
    then have "ns \<in> insert st B" using tr by simp
    then show ?thesis by simp
  next
    case False
    then have "card (insert st B) = Suc (card B)" using fin by simp
    moreover have "int (card B) = r - 1" using c2 False by simp
    ultimately show ?thesis by simp
  qed
qed

lemma esc_run_incr:
  fixes n st ns mv r h lo hi :: int and table :: tm_table
  assumes G: "esc_geom n table b st h lo hi f r S" and mv: "mv = 1 \<or> mv = - 1"
    and st: "1 \<le> st" "st \<le> n"
    and tr: "table (st, f h) = Some (ns, w, mv)"
    and new: "h + mv \<notin> S"
  shows "esc_run n table b ns (h + mv) (min lo (h + mv)) (max hi (h + mv)) (r + 1)
           (insert (h + mv) S)"
proof -
  note g = esc_geomD[OF G]
  let ?p = "h + mv"
  let ?lo = "min lo ?p"
  let ?hi = "max hi ?p"
  let ?S = "insert ?p S"
  have inside0: "?p = 0" if "lo \<le> ?p" "?p \<le> hi"
  proof (rule ccontr)
    assume "?p \<noteq> 0"
    then have "?p \<in> S" using that by (intro g(8))
    then show False using new by simp
  qed
  have ext_shape: "2 \<le> ?hi - ?lo \<and> (mv = 1 \<and> ?p = ?hi \<or> mv = - 1 \<and> ?p = ?lo)"
    if "?p < lo \<or> hi < ?p"
    using that g(1,2,5) mv by auto
  show ?thesis
  proof (cases "r = 0")
    case True
    have sh: "(2 \<le> ?hi - ?lo \<and> (mv = 1 \<and> ?p = ?hi \<or> mv = - 1 \<and> ?p = ?lo) \<and>
                (2 \<le> r + 1 \<longrightarrow> ?p - mv \<in> ?S)) \<or>
              (?p = 0 \<and> r + 1 = 1) \<or>
              (?p = 0 \<and> r + 1 = 2 \<and> ?lo < 0 \<and> 0 < ?hi)"
    proof (cases "?p < lo \<or> hi < ?p")
      case t: True
      then show ?thesis using ext_shape True by simp
    next
      case False
      then have "?p = 0" using inside0 by simp
      then show ?thesis using True by simp
    qed
    show ?thesis
    proof (rule esc_runI[of mv "{}"])
      show "mv = 1 \<or> mv = - 1" by (rule mv)
      show "int (card ({} :: int set)) \<le> r + 1 - 1" using True by simp
      show "ns \<in> {} \<or> int (card ({} :: int set)) = r + 1 - 1" using True by simp
      show "(2 \<le> ?hi - ?lo \<and> (mv = 1 \<and> ?p = ?hi \<or> mv = - 1 \<and> ?p = ?lo) \<and>
                (2 \<le> r + 1 \<longrightarrow> ?p - mv \<in> ?S)) \<or>
              (?p = 0 \<and> r + 1 = 1) \<or>
              (?p = 0 \<and> r + 1 = 2 \<and> ?lo < 0 \<and> 0 < ?hi)" by (rule sh)
    qed simp_all
  next
    case False
    then have r1: "1 \<le> r" and fh: "f h = b" and hS: "h \<in> S"
      and run: "esc_run n table b st h lo hi r S"
      using g(9) by simp_all
    have trb: "table (st, b) = Some (ns, w, mv)" using tr fh by simp
    obtain d B where
      d: "d = 1 \<or> d = - 1" and B: "B \<subseteq> {1..n}"
      and cl: "\<And>s. s \<in> B \<Longrightarrow> \<exists>s' w. table (s, b) = Some (s', w, d) \<and> s' \<in> insert st B"
      and c1: "int (card B) \<le> r - 1" and c2: "st \<in> B \<or> int (card B) = r - 1"
      and shape: "(2 \<le> hi - lo \<and> (d = 1 \<and> h = hi \<or> d = - 1 \<and> h = lo) \<and> (2 \<le> r \<longrightarrow> h - d \<in> S)) \<or>
         (h = 0 \<and> r = 1) \<or> (h = 0 \<and> r = 2 \<and> lo < 0 \<and> 0 < hi)"
      by (rule esc_runD[OF run]) (rule that)
    have fin: "finite B" using B by (rule finite_subset) simp
    have empty: "B = {}" if "r = 1"
    proof -
      have "card B = 0" using c1 that by simp
      then show ?thesis using fin by simp
    qed
    have dir_sh: "(d = mv \<or> B = {}) \<and>
          ((2 \<le> ?hi - ?lo \<and> (mv = 1 \<and> ?p = ?hi \<or> mv = - 1 \<and> ?p = ?lo) \<and>
                (2 \<le> r + 1 \<longrightarrow> ?p - mv \<in> ?S)) \<or>
              (?p = 0 \<and> r + 1 = 1) \<or>
              (?p = 0 \<and> r + 1 = 2 \<and> ?lo < 0 \<and> 0 < ?hi))"
    proof (cases "?p < lo \<or> hi < ?p")
      case fresh: True
      have e: "2 \<le> ?hi - ?lo \<and> (mv = 1 \<and> ?p = ?hi \<or> mv = - 1 \<and> ?p = ?lo)"
        using ext_shape fresh by simp
      have pm: "?p - mv \<in> ?S" using hS by simp
      from shape consider
        (ext) "2 \<le> hi - lo" "d = 1 \<and> h = hi \<or> d = - 1 \<and> h = lo"
        | (origin) "h = 0" "r = 1"
        | (corner) "h = 0" "r = 2" "lo < 0" "0 < hi"
        by blast
      then show ?thesis
      proof cases
        case ext
        have "d = mv" using ext fresh g(1,2) mv d by auto
        then show ?thesis using e pm by simp
      next
        case origin
        then show ?thesis using empty e pm by simp
      next
        case corner
        then have False using fresh mv by auto
        then show ?thesis ..
      qed
    next
      case False
      then have p0: "?p = 0" using inside0 by simp
      have mm: "?lo = lo" "?hi = hi" using False by simp_all
      from shape consider
        (ext) "2 \<le> hi - lo" "d = 1 \<and> h = hi \<or> d = - 1 \<and> h = lo" "2 \<le> r \<longrightarrow> h - d \<in> S"
        | (origin) "h = 0"
        by blast
      then show ?thesis
      proof cases
        case ext
        have hd: "h - d = 0" using ext(1,2) p0 mv g(3,4) by auto
        have "\<not> 2 \<le> r" using ext(3) hd new p0 by auto
        then have r: "r = 1" using r1 by simp
        have "lo < 0 \<and> 0 < hi" using ext(1,2) p0 mv g(3,4) by auto
        then show ?thesis unfolding mm using empty[OF r] p0 r by simp
      next
        case origin
        then have False using p0 mv by auto
        then show ?thesis ..
      qed
    qed
    have "\<exists>s' w. table (s, b) = Some (s', w, mv) \<and> s' \<in> insert st B" if "s \<in> B" for s
    proof -
      have "B \<noteq> {}" using that by auto
      then have "d = mv" using dir_sh by simp
      then show ?thesis using cl[OF that] by simp
    qed
    then have cl': "\<forall>s \<in> B. \<exists>s' w. table (s, b) = Some (s', w, mv) \<and> s' \<in> insert st B"
      by (intro ballI)
    note ext = run_states_extend[where B = B and n = n and st = st and table = table and b = b
        and d = mv and r = r and ns = ns and w = w, OF B st cl' c1 c2 trb]
    show ?thesis
    proof (rule esc_runI[of mv "insert st B"])
      show "mv = 1 \<or> mv = - 1" by (rule mv)
      show "insert st B \<subseteq> {1..n}" by (rule ext(1))
      show "\<exists>s' w. table (s, b) = Some (s', w, mv) \<and> s' \<in> insert ns (insert st B)"
        if "s \<in> insert st B" for s using ext(2) that by (rule bspec)
      show "int (card (insert st B)) \<le> r + 1 - 1" by (rule ext(3))
      show "ns \<in> insert st B \<or> int (card (insert st B)) = r + 1 - 1" by (rule ext(4))
      show "(2 \<le> ?hi - ?lo \<and> (mv = 1 \<and> ?p = ?hi \<or> mv = - 1 \<and> ?p = ?lo) \<and>
                (2 \<le> r + 1 \<longrightarrow> ?p - mv \<in> ?S)) \<or>
              (?p = 0 \<and> r + 1 = 1) \<or>
              (?p = 0 \<and> r + 1 = 2 \<and> ?lo < 0 \<and> 0 < ?hi)"
        using dir_sh by (rule conjunct2)
    qed
  qed
qed

lemma esc_geom_incr:
  fixes n st ns mv r h lo hi :: int and table :: tm_table
  assumes G: "esc_geom n table b st h lo hi f r S" and mv: "mv = 1 \<or> mv = - 1"
    and st: "1 \<le> st" "st \<le> n"
    and tr: "table (st, f h) = Some (ns, w, mv)"
    and new: "h + mv \<notin> S"
    and blank: "(f(h := w)) (h + mv) = b"
  shows "esc_geom n table b ns (h + mv) (min lo (h + mv)) (max hi (h + mv)) (f(h := w)) (r + 1)
           (insert (h + mv) S)"
proof -
  note g = esc_geomD[OF G]
  note base = esc_geom_base[OF G mv]
  have r0: "0 \<le> r" using g(9) by auto
  have run: "esc_run n table b ns (h + mv) (min lo (h + mv)) (max hi (h + mv)) (r + 1)
           (insert (h + mv) S)"
    by (rule esc_run_incr[OF G mv st tr new])
  show ?thesis
  proof (rule esc_geomI)
    show "r + 1 = 0 \<or> (1 \<le> r + 1 \<and> (f(h := w)) (h + mv) = b \<and> h + mv \<in> insert (h + mv) S \<and>
        esc_run n table b ns (h + mv) (min lo (h + mv)) (max hi (h + mv)) (r + 1)
           (insert (h + mv) S))"
      using r0 blank run by simp
    show "\<And>c. c \<in> insert (h + mv) S \<Longrightarrow> min lo (h + mv) \<le> c \<and> c \<le> max hi (h + mv)"
      by (rule base(7))
    show "\<And>c. min lo (h + mv) \<le> c \<Longrightarrow> c \<le> max hi (h + mv) \<Longrightarrow> c \<noteq> 0 \<Longrightarrow> c \<in> insert (h + mv) S"
      by (rule base(8))
    show "\<And>c. c < min lo (h + mv) \<or> max hi (h + mv) < c \<Longrightarrow> (f(h := w)) c = b"
      by (rule base(6))
  qed (rule base(1-5))+
qed

text \<open>A run longer than the number of states belongs to a runner.\<close>

lemma esc_geom_verdict:
  fixes n st r h lo hi :: int and table :: tm_table
  assumes G: "esc_geom n table b st h lo hi f r S" and n: "1 \<le> n" "n < r"
    and st: "1 \<le> st" "st \<le> n"
  obtains (runner) d B where "d = 1 \<or> d = - 1" "st \<in> B" "0 \<notin> B"
      "\<forall>s \<in> B. \<exists>s' w. table (s, b) = Some (s', w, d) \<and> s' \<in> B"
      "\<forall>c. 0 \<le> (c - h) * d \<longrightarrow> f c = b"
    | (corner) d w where "n = 1" "d = 1 \<or> d = - 1" "table (1, b) = Some (1, w, d)"
proof -
  note g = esc_geomD[OF G]
  have r2: "2 \<le> r" using n by simp
  then have fh: "f h = b" and hS: "h \<in> S" and run: "esc_run n table b st h lo hi r S"
    using g(9) by simp_all
  obtain d B where
    d: "d = 1 \<or> d = - 1" and B: "B \<subseteq> {1..n}"
    and cl: "\<And>s. s \<in> B \<Longrightarrow> \<exists>s' w. table (s, b) = Some (s', w, d) \<and> s' \<in> insert st B"
    and c1: "int (card B) \<le> r - 1" and c2: "st \<in> B \<or> int (card B) = r - 1"
    and shape: "(2 \<le> hi - lo \<and> (d = 1 \<and> h = hi \<or> d = - 1 \<and> h = lo) \<and> (2 \<le> r \<longrightarrow> h - d \<in> S)) \<or>
       (h = 0 \<and> r = 1) \<or> (h = 0 \<and> r = 2 \<and> lo < 0 \<and> 0 < hi)"
    by (rule esc_runD[OF run]) (rule that)
  have fin: "finite {1..n}" by simp
  have stB: "st \<in> B"
  proof (rule ccontr)
    assume a: "st \<notin> B"
    then have c: "int (card B) = r - 1" using c2 by simp
    have "card {1..n} = nat n" by simp
    then have "card {1..n} \<le> card B" using c n by linarith
    then have "B = {1..n}" using B fin by (intro card_seteq) simp_all
    then show False using a st by simp
  qed
  have ins: "insert st B = B" using stB by auto
  have zB: "0 \<notin> B" using B by auto
  have clB: "\<forall>s \<in> B. \<exists>s' w. table (s, b) = Some (s', w, d) \<and> s' \<in> B"
    using cl unfolding ins by (intro ballI)
  from shape r2 consider
    (ext) "d = 1 \<and> h = hi \<or> d = - 1 \<and> h = lo"
    | (cor) "h = 0" "r = 2"
    by linarith
  then show thesis
  proof cases
    case ext
    have "\<forall>c. 0 \<le> (c - h) * d \<longrightarrow> f c = b"
    proof (intro allI impI)
      fix c assume c: "0 \<le> (c - h) * d"
      show "f c = b"
      proof (cases "c = h")
        case True
        then show ?thesis using fh by simp
      next
        case False
        from ext have "c < lo \<or> hi < c"
        proof
          assume "d = 1 \<and> h = hi"
          then show ?thesis using c False by auto
        next
          assume "d = - 1 \<and> h = lo"
          then show ?thesis using c False by auto
        qed
        then show ?thesis by (rule g(6))
      qed
    qed
    then show ?thesis using d stB zB clB by (intro runner)
  next
    case cor
    have n1: "n = 1" using cor n by simp
    then have "st = 1" using st by simp
    then have "1 \<in> B" using stB by simp
    then obtain s' w where t: "table (1, b) = Some (s', w, d)" and s': "s' \<in> B"
      using clB by blast
    have "s' = 1" using s' B n1 by auto
    then show ?thesis using n1 d t by (intro corner) simp_all
  qed
qed

lemma read_cell_cycle_history [simp]:
  "read_cell (t\<lparr>cycle_history := hh\<rparr>) = read_cell t"
  by (rule ext) (simp add: read_cell_def)

lemma esc_inv_cycle_history [simp]:
  "esc_inv n (t\<lparr>cycle_history := hh\<rparr>) = esc_inv n t"
  by (cases "escapee_seen_positions t") (simp_all add: esc_inv_def)

lemma sem_eq_cycle_history [simp]:
  "sem_eq (t\<lparr>cycle_history := hh\<rparr>) t" "sem_eq t (t\<lparr>cycle_history := hh\<rparr>)"
  by (simp_all add: sem_eq_def)

lemma check_escapee_first:
  "escapee_seen_positions t = None \<Longrightarrow>
     check_escapee t = (Inr False, t\<lparr>escapee_seen_positions := Some {head_position t},
                                     escapee_blank_run_count := 0\<rparr>)"
  by (simp add: check_escapee_def)

lemma check_escapee_error:
  "escapee_seen_positions t = Some S \<Longrightarrow> to_c_int (head_position t) = Inl e \<Longrightarrow>
     check_escapee t = (Inl e, t)"
  by (simp add: check_escapee_def)

lemma check_escapee_counted:
  assumes "escapee_seen_positions t = Some S" "to_c_int (head_position t) = Inr p"
    and "read_cell t p = blank_symbol t" "p \<notin> S"
  shows "check_escapee t =
     (Inr (num_states t < escapee_blank_run_count t + 1),
      t\<lparr>tape := (if tape t p = None then (tape t)(p \<mapsto> blank_symbol t) else tape t),
        escapee_blank_run_count := escapee_blank_run_count t + 1,
        escapee_seen_positions := Some (insert p S)\<rparr>)"
  using assms unfolding check_escapee_def by (simp add: tape_get_eq Let_def)

lemma check_escapee_reset:
  assumes "escapee_seen_positions t = Some S" "to_c_int (head_position t) = Inr p"
    and "\<not> (read_cell t p = blank_symbol t \<and> p \<notin> S)"
  shows "check_escapee t =
     (Inr (num_states t < 0),
      t\<lparr>tape := (if tape t p = None then (tape t)(p \<mapsto> blank_symbol t) else tape t),
        escapee_blank_run_count := 0\<rparr>)"
  using assms unfolding check_escapee_def by (auto simp add: tape_get_eq Let_def)

lemma check_escapee_cases [case_names first error counted reset]:
  obtains
    (first) "escapee_seen_positions t = None"
      "check_escapee t = (Inr False, t\<lparr>escapee_seen_positions := Some {head_position t},
                                     escapee_blank_run_count := 0\<rparr>)"
  | (error) S e where "escapee_seen_positions t = Some S" "to_c_int (head_position t) = Inl e"
      "check_escapee t = (Inl e, t)"
  | (counted) S where "escapee_seen_positions t = Some S"
      "to_c_int (head_position t) = Inr (head_position t)"
      "read_cell t (head_position t) = blank_symbol t" "head_position t \<notin> S"
      "check_escapee t =
         (Inr (num_states t < escapee_blank_run_count t + 1),
          t\<lparr>tape := (if tape t (head_position t) = None
                      then (tape t)(head_position t \<mapsto> blank_symbol t) else tape t),
            escapee_blank_run_count := escapee_blank_run_count t + 1,
            escapee_seen_positions := Some (insert (head_position t) S)\<rparr>)"
  | (reset) S where "escapee_seen_positions t = Some S"
      "to_c_int (head_position t) = Inr (head_position t)"
      "\<not> (read_cell t (head_position t) = blank_symbol t \<and> head_position t \<notin> S)"
      "check_escapee t =
         (Inr (num_states t < 0),
          t\<lparr>tape := (if tape t (head_position t) = None
                      then (tape t)(head_position t \<mapsto> blank_symbol t) else tape t),
            escapee_blank_run_count := 0\<rparr>)"
proof (cases "escapee_seen_positions t")
  case None
  then show ?thesis by (intro first check_escapee_first)
next
  case (Some S)
  show ?thesis
  proof (cases "head_position t" rule: to_c_int_cases)
    case 1
    show ?thesis by (rule error[OF Some 1 check_escapee_error[OF Some 1]])
  next
    case 2
    show ?thesis
    proof (cases "read_cell t (head_position t) = blank_symbol t \<and> head_position t \<notin> S")
      case True
      then have a: "read_cell t (head_position t) = blank_symbol t" and b: "head_position t \<notin> S"
        by simp_all
      show ?thesis by (rule counted[OF Some 2(1) a b check_escapee_counted[OF Some 2(1) a b]])
    next
      case False
      show ?thesis by (rule reset[OF Some 2(1) False check_escapee_reset[OF Some 2(1) False]])
    qed
  qed
qed

lemma read_cell_reread:
  "read_cell (t\<lparr>tape := (if tape t p = None then (tape t)(p \<mapsto> blank_symbol t) else tape t)\<rparr>)
     = read_cell t"
  by (rule ext) (simp add: read_cell_def)

lemma check_escapee_frame:
  "sem_eq (snd (check_escapee t)) t"
  "blank_symbol (snd (check_escapee t)) = blank_symbol t"
  "num_states (snd (check_escapee t)) = num_states t"
  "cycle_history (snd (check_escapee t)) = cycle_history t"
  "transition_table (snd (check_escapee t)) = transition_table t"
  "current_state (snd (check_escapee t)) = current_state t"
proof -
  have rc: "read_cell (t\<lparr>tape := T, escapee_blank_run_count := r, escapee_seen_positions := S\<rparr>)
       = read_cell (t\<lparr>tape := T\<rparr>)" for T r S
    by (rule ext) (simp add: read_cell_def)
  have rc2: "read_cell (t\<lparr>tape := T, escapee_blank_run_count := r\<rparr>)
       = read_cell (t\<lparr>tape := T\<rparr>)" for T r
    by (rule ext) (simp add: read_cell_def)
  have rc3: "read_cell (t\<lparr>escapee_seen_positions := S, escapee_blank_run_count := r\<rparr>)
       = read_cell t" for r S
    by (rule ext) (simp add: read_cell_def)
  show "sem_eq (snd (check_escapee t)) t"
  proof (cases t rule: check_escapee_cases)
    case first
    show ?thesis unfolding first(2) sem_eq_def by (simp add: rc3)
  next
    case (error S e)
    show ?thesis unfolding error(3) by simp
  next
    case (counted S)
    show ?thesis unfolding counted(5) sem_eq_def by (simp add: rc read_cell_reread)
  next
    case (reset S)
    show ?thesis unfolding reset(4) sem_eq_def by (simp add: rc2 read_cell_reread)
  qed
  show "blank_symbol (snd (check_escapee t)) = blank_symbol t"
    by (cases t rule: check_escapee_cases) simp_all
  show "num_states (snd (check_escapee t)) = num_states t"
    by (cases t rule: check_escapee_cases) simp_all
  show "cycle_history (snd (check_escapee t)) = cycle_history t"
    by (cases t rule: check_escapee_cases) simp_all
  show "transition_table (snd (check_escapee t)) = transition_table t"
    by (cases t rule: check_escapee_cases) simp_all
  show "current_state (snd (check_escapee t)) = current_state t"
    by (cases t rule: check_escapee_cases) simp_all
qed

lemma check_escapee_cycle_history:
  "check_escapee (t\<lparr>cycle_history := hh\<rparr>) =
     (fst (check_escapee t), (snd (check_escapee t))\<lparr>cycle_history := hh\<rparr>)"
proof (cases t rule: check_escapee_cases)
  case first
  have "escapee_seen_positions (t\<lparr>cycle_history := hh\<rparr>) = None" using first(1) by simp
  from check_escapee_first[OF this] show ?thesis unfolding first(2) by simp
next
  case (error S e)
  have "escapee_seen_positions (t\<lparr>cycle_history := hh\<rparr>) = Some S"
    "to_c_int (head_position (t\<lparr>cycle_history := hh\<rparr>)) = Inl e"
    using error(1,2) by simp_all
  from check_escapee_error[OF this] show ?thesis unfolding error(3) by simp
next
  case (counted S)
  have "escapee_seen_positions (t\<lparr>cycle_history := hh\<rparr>) = Some S"
    "to_c_int (head_position (t\<lparr>cycle_history := hh\<rparr>)) = Inr (head_position t)"
    "read_cell (t\<lparr>cycle_history := hh\<rparr>) (head_position t) = blank_symbol (t\<lparr>cycle_history := hh\<rparr>)"
    "head_position t \<notin> S"
    using counted(1-4) by simp_all
  from check_escapee_counted[OF this] show ?thesis unfolding counted(5) by simp
next
  case (reset S)
  have "escapee_seen_positions (t\<lparr>cycle_history := hh\<rparr>) = Some S"
    "to_c_int (head_position (t\<lparr>cycle_history := hh\<rparr>)) = Inr (head_position t)"
    "\<not> (read_cell (t\<lparr>cycle_history := hh\<rparr>) (head_position t) = blank_symbol (t\<lparr>cycle_history := hh\<rparr>)
        \<and> head_position t \<notin> S)"
    using reset(1-3) by simp_all
  from check_escapee_reset[OF this] show ?thesis unfolding reset(4) by simp
qed

lemma cython_step_geo [case_names error halted undefined defined]:
  obtains
    (error) e where "cython_step t = (Inl e, t)"
  | (halted) "current_state t = HALT_STATE"
  | (undefined) "current_state t \<noteq> HALT_STATE"
      "current_state (snd (cython_step t)) = HALT_STATE"
      "head_position (snd (cython_step t)) = head_position t"
      "read_cell (snd (cython_step t)) = read_cell t"
      "min_visited (snd (cython_step t)) = min_visited t"
      "max_visited (snd (cython_step t)) = max_visited t"
  | (defined) ns w mv where "current_state t \<noteq> HALT_STATE"
      "transition_table t (current_state t, read_cell t (head_position t)) = Some (ns, w, mv)"
      "current_state (snd (cython_step t)) = ns"
      "head_position (snd (cython_step t)) = head_position t + mv"
      "read_cell (snd (cython_step t)) = (read_cell t)(head_position t := w)"
      "min_visited (snd (cython_step t)) = min (min_visited t) (head_position t + mv)"
      "max_visited (snd (cython_step t)) = max (max_visited t) (head_position t + mv)"
proof (cases t rule: cython_step_cases)
  case (error e)
  then show ?thesis using that(1) by simp
next
  case halted
  then show ?thesis using that(2) by simp
next
  case undefined
  show ?thesis
  proof (rule that(3))
    show "read_cell (snd (cython_step t)) = read_cell t"
      unfolding undefined(3) by (simp add: read_cell_step_undefined)
  qed (simp_all add: undefined)
next
  case (defined ns w mv)
  show ?thesis
  proof (rule that(4)[of ns w mv])
    show "read_cell (snd (cython_step t)) = (read_cell t)(head_position t := w)"
      unfolding defined(5) by (simp add: read_cell_step_defined)
  qed (simp_all add: defined)
qed

lemma esc_inv_counted:
  "esc_inv n (t\<lparr>tape := (if tape t p = None then (tape t)(p \<mapsto> blank_symbol t) else tape t),
                 escapee_blank_run_count := r, escapee_seen_positions := Some S\<rparr>) =
   esc_geom n (transition_table t) (blank_symbol t) (current_state t) (head_position t)
     (min_visited t) (max_visited t) (read_cell t) r S"
proof -
  have "read_cell (t\<lparr>tape := (if tape t p = None then (tape t)(p \<mapsto> blank_symbol t) else tape t),
                 escapee_blank_run_count := r, escapee_seen_positions := Some S\<rparr>) = read_cell t"
    by (rule ext) (simp add: read_cell_def)
  then show ?thesis by (simp add: esc_inv_def)
qed

lemma esc_inv_reset:
  assumes "escapee_seen_positions t = Some S"
  shows "esc_inv n (t\<lparr>tape := (if tape t p = None then (tape t)(p \<mapsto> blank_symbol t) else tape t),
                 escapee_blank_run_count := r\<rparr>) =
   esc_geom n (transition_table t) (blank_symbol t) (current_state t) (head_position t)
     (min_visited t) (max_visited t) (read_cell t) r S"
proof -
  have "read_cell (t\<lparr>tape := (if tape t p = None then (tape t)(p \<mapsto> blank_symbol t) else tape t),
                 escapee_blank_run_count := r\<rparr>) = read_cell t"
    by (rule ext) (simp add: read_cell_def)
  then show ?thesis using assms by (simp add: esc_inv_def)
qed

lemma esc_inv_first:
  "esc_inv n (t\<lparr>escapee_seen_positions := Some S, escapee_blank_run_count := r\<rparr>) =
   esc_geom n (transition_table t) (blank_symbol t) (current_state t) (head_position t)
     (min_visited t) (max_visited t) (read_cell t) r S"
proof -
  have "read_cell (t\<lparr>escapee_seen_positions := Some S, escapee_blank_run_count := r\<rparr>) = read_cell t"
    by (rule ext) (simp add: read_cell_def)
  then show ?thesis by (simp add: esc_inv_def)
qed

lemma valid_entriesD:
  assumes "valid_entries n table" "table key = Some (ns, w, mv)"
  shows "(ns = 0 \<and> mv = 0) \<or> (1 \<le> ns \<and> ns \<le> n \<and> (mv = - 1 \<or> mv = 1))"
proof -
  have "valid_transition n (ns, w, mv)" using assms unfolding valid_entries_def by blast
  then show ?thesis by (simp add: valid_transition_def)
qed

lemma read_cell_initial [simp]: "read_cell (initial_tm table n blank) c = blank"
  by (simp add: read_cell_def initial_tm_def cell_of_def)

lemma corner_never_halts:
  assumes "d = 1 \<or> d = - 1" "table (1, blank) = Some (1, w, d)"
    and rc: "run_common table n blank t"
  shows "never_halts t"
proof -
  have "runner_inv d {1} (initial_tm table n blank)"
    unfolding runner_inv_def using assms(1,2)
    by (simp add: initial_tm_def read_cell_def cell_of_def)
  then have nh: "never_halts (initial_tm table n blank)" by (rule runner_never_halts)
  from rc obtain k where k: "sem_eq (cython_steps k (initial_tm table n blank)) t"
    unfolding run_common_def by (elim conjE exE)
  show ?thesis by (rule never_halts_sem_eq[OF k never_halts_steps[OF nh]])
qed

lemma esc_round:
  assumes rc: "run_common table n blank t" and inv: "esc_inv n t" and n1: "1 \<le> n"
    and ve: "valid_entries n table" and step: "cython_step t = (Inr v, t1)"
    and nh: "current_state t \<noteq> HALT_STATE"
    and q: "check_escapee t1 = (res, t2)"
  shows "res = Inr True \<Longrightarrow> never_halts t2"
    and "res = Inr False \<Longrightarrow> current_state t2 = HALT_STATE \<or> esc_inv n t2"
proof -
  let ?st = "current_state t"
  let ?h = "head_position t"
  let ?lo = "min_visited t"
  let ?hi = "max_visited t"
  let ?f = "read_cell t"
  let ?r = "escapee_blank_run_count t"
  have t1: "t1 = snd (cython_step t)" using step by simp
  have t2: "t2 = snd (check_escapee t1)" and res: "res = fst (check_escapee t1)"
    using q by simp_all
  have tab: "transition_table t = table" and nst: "num_states t = n"
    and bl: "blank_symbol t = blank" and st: "1 \<le> ?st" "?st \<le> n"
    using rc nh unfolding run_common_def by simp_all
  have f1: "transition_table t1 = table" "num_states t1 = n" "blank_symbol t1 = blank"
    "escapee_seen_positions t1 = escapee_seen_positions t"
    "escapee_blank_run_count t1 = ?r"
    unfolding t1 using tab nst bl by simp_all
  have se: "sem_eq t1 t2" unfolding t2 by (rule sem_eq_sym) (rule check_escapee_frame(1))
  have cs: "current_state t2 = current_state t1" unfolding t2 by (rule check_escapee_frame(6))
  have geom: "esc_geom n table blank ?st ?h ?lo ?hi ?f ?r S" if "escapee_seen_positions t = Some S" for S
    using inv that unfolding esc_inv_def tab bl by simp
  have stay: "res \<noteq> Inr True" if hd: "head_position t1 = ?h" and rd: "read_cell t1 ?h = blank \<longrightarrow> True"
  proof (cases t1 rule: check_escapee_cases)
    case first
    then show ?thesis using q by simp
  next
    case (error S e)
    then show ?thesis using q by simp
  next
    case (counted S)
    have S: "escapee_seen_positions t = Some S" using counted(1) f1(4) by simp
    note g = esc_geomD[OF geom[OF S]]
    have "?h \<notin> S" using counted(4) hd by simp
    then have "?r = 0" using g(9) by auto
    then show ?thesis using counted(5) q n1 f1 by simp
  next
    case (reset S)
    then show ?thesis using q n1 f1 by simp
  qed
  have main: "(res = Inr True \<longrightarrow> never_halts t1) \<and>
              (res = Inr False \<longrightarrow> current_state t1 = HALT_STATE \<or> esc_inv n t2)"
  proof (cases t rule: cython_step_geo)
    case (error e)
    then show ?thesis using step by simp
  next
    case halted
    then show ?thesis using nh by simp
  next
    case undefined
    have "res \<noteq> Inr True" by (rule stay) (simp_all add: t1 undefined)
    moreover have "current_state t1 = HALT_STATE" unfolding t1 by (rule undefined(2))
    ultimately show ?thesis by simp
  next
    case (defined ns w mv)
    have tr: "table (?st, ?f ?h) = Some (ns, w, mv)" using defined(2) tab by simp
    have g1: "current_state t1 = ns" "head_position t1 = ?h + mv"
      "read_cell t1 = ?f(?h := w)" "min_visited t1 = min ?lo (?h + mv)"
      "max_visited t1 = max ?hi (?h + mv)"
      unfolding t1 by (rule defined)+
    from valid_entriesD[OF ve tr] show ?thesis
    proof
      assume a: "ns = 0 \<and> mv = 0"
      have "res \<noteq> Inr True" by (rule stay) (simp_all add: g1 a)
      moreover have "current_state t1 = HALT_STATE" using g1(1) a by simp
      ultimately show ?thesis by simp
    next
      assume a: "1 \<le> ns \<and> ns \<le> n \<and> (mv = - 1 \<or> mv = 1)"
      then have ns: "1 \<le> ns" "ns \<le> n" and mv: "mv = 1 \<or> mv = - 1" by auto
      show ?thesis
      proof (cases t1 rule: check_escapee_cases)
        case first
        have N: "escapee_seen_positions t = None" using first(1) f1(4) by simp
        have i0: "?h = 0" "?lo = 0" "?hi = 0" "\<And>c. ?f c = blank"
          using inv unfolding esc_inv_def N bl by simp_all
        have r: "res = Inr False" using first(2) q by simp
        have "esc_geom n table blank ns mv (min 0 mv) (max 0 mv) (?f(0 := w)) 0 {mv}"
        proof (rule esc_geomI)
          show "\<And>c. c < min 0 mv \<or> max 0 mv < c \<Longrightarrow> (?f(0 := w)) c = blank"
            using i0(4) by auto
          show "\<And>c. c \<in> {mv} \<Longrightarrow> min 0 mv \<le> c \<and> c \<le> max 0 mv" by auto
          show "\<And>c. min 0 mv \<le> c \<Longrightarrow> c \<le> max 0 mv \<Longrightarrow> c \<noteq> 0 \<Longrightarrow> c \<in> {mv}"
            using mv by auto
          show "min 0 mv < max 0 mv" using mv by auto
          show "(0::int) = 0 \<or> (1 \<le> (0::int) \<and> (?f(0 := w)) mv = blank \<and> mv \<in> {mv} \<and>
             esc_run n table blank ns mv (min 0 mv) (max 0 mv) 0 {mv})" by simp
        qed simp_all
        then have G': "esc_geom n table blank ns (?h + mv) (min ?lo (?h + mv)) (max ?hi (?h + mv))
                    (?f(?h := w)) 0 {?h + mv}"
          by (simp add: i0)
        have t2e: "t2 = t1\<lparr>escapee_seen_positions := Some {head_position t1},
                             escapee_blank_run_count := 0\<rparr>"
          using first(2) q by simp
        have "esc_inv n t2"
          unfolding t2e esc_inv_first unfolding f1 g1 by (rule G')
        then show ?thesis using r by simp
      next
        case (error S e)
        then show ?thesis using q by simp
      next
        case (counted S)
        have S: "escapee_seen_positions t = Some S" using counted(1) f1(4) by simp
        note G = geom[OF S]
        have new: "?h + mv \<notin> S" using counted(4) g1(2) by simp
        have blank: "(?f(?h := w)) (?h + mv) = blank" using counted(3) g1(2,3) f1(3) by simp
        have G': "esc_geom n table blank ns (?h + mv) (min ?lo (?h + mv)) (max ?hi (?h + mv))
                    (?f(?h := w)) (?r + 1) (insert (?h + mv) S)"
          by (rule esc_geom_incr[OF G mv st tr new blank])
        have r: "res = Inr (n < ?r + 1)" using counted(5) q f1 by simp
        have t2e: "t2 = t1\<lparr>tape := (if tape t1 (head_position t1) = None
                      then (tape t1)(head_position t1 \<mapsto> blank_symbol t1) else tape t1),
            escapee_blank_run_count := escapee_blank_run_count t1 + 1,
            escapee_seen_positions := Some (insert (head_position t1) S)\<rparr>"
          using counted(5) q by simp
        have e2: "esc_inv n t2"
          unfolding t2e esc_inv_counted unfolding f1 g1 by (rule G')
        have "never_halts t1" if v: "n < ?r + 1"
          using G' n1 v ns
        proof (cases rule: esc_geom_verdict)
          case (runner d B)
          have "runner_inv d B t1"
            unfolding runner_inv_def f1 g1
            using runner by (intro conjI)
          then show ?thesis by (rule runner_never_halts)
        next
          case (corner d w')
          have "never_halts t" by (rule corner_never_halts[OF corner(2,3) rc])
          from never_halts_steps[OF this, of 1] show ?thesis
            unfolding t1 by (simp add: cython_steps_Suc)
        qed
        then show ?thesis using r e2 by simp
      next
        case (reset S)
        have S: "escapee_seen_positions t = Some S" using reset(1) f1(4) by simp
        note G = geom[OF S]
        have no: "\<not> ((?f(?h := w)) (?h + mv) = blank \<and> ?h + mv \<notin> S)"
          using reset(3) g1(2,3) f1(3) by simp
        have G': "esc_geom n table blank ns (?h + mv) (min ?lo (?h + mv)) (max ?hi (?h + mv))
                    (?f(?h := w)) 0 S"
          by (rule esc_geom_reset[OF G mv no])
        have r: "res = Inr False" using reset(4) q f1 n1 by simp
        have S1: "escapee_seen_positions t1 = Some S" by (rule reset(1))
        have t2e: "t2 = t1\<lparr>tape := (if tape t1 (head_position t1) = None
                      then (tape t1)(head_position t1 \<mapsto> blank_symbol t1) else tape t1),
            escapee_blank_run_count := 0\<rparr>"
          using reset(4) q by simp
        have e2: "esc_inv n t2"
          unfolding t2e esc_inv_reset[OF S1] unfolding f1 g1 by (rule G')
        show ?thesis using r e2 by simp
      qed
    qed
  qed
  show "never_halts t2" if "res = Inr True"
  proof -
    have "never_halts t1" using main that by simp
    with se show ?thesis by (rule never_halts_sem_eq)
  qed
  show "current_state t2 = HALT_STATE \<or> esc_inv n t2" if "res = Inr False"
    using main that cs by simp
qed

lemma run_common_initial: "1 \<le> n \<Longrightarrow> run_common table n blank (initial_tm table n blank)"
proof -
  assume n: "1 \<le> n"
  have "sem_eq (cython_steps 0 (initial_tm table n blank)) (initial_tm table n blank)" by simp
  then have "\<exists>k. sem_eq (cython_steps k (initial_tm table n blank)) (initial_tm table n blank)"
    by (rule exI)
  then show ?thesis unfolding run_common_def using n by (simp add: initial_tm_def)
qed

lemma run_common_sem:
  assumes rc: "run_common table n blank t" and se: "sem_eq t t'"
    and f: "num_states t' = n" "blank_symbol t' = blank"
  shows "run_common table n blank t'"
proof -
  from rc obtain k where k: "sem_eq (cython_steps k (initial_tm table n blank)) t"
    unfolding run_common_def by (elim conjE exE)
  have "sem_eq (cython_steps k (initial_tm table n blank)) t'" by (rule sem_eq_trans[OF k se])
  then have ex: "\<exists>k. sem_eq (cython_steps k (initial_tm table n blank)) t'" by (rule exI)
  have "transition_table t' = table" "0 \<le> current_state t'" "current_state t' \<le> n"
    using rc se unfolding run_common_def sem_eq_def by simp_all
  then show ?thesis unfolding run_common_def using f ex by (intro conjI)
qed

lemma run_common_step:
  assumes rc: "run_common table n blank t" and ve: "valid_entries n table"
  shows "run_common table n blank (snd (cython_step t))"
proof -
  have tab: "transition_table t = table" and f: "num_states t = n" "blank_symbol t = blank"
    and st: "0 \<le> current_state t" "current_state t \<le> n"
    using rc unfolding run_common_def by simp_all
  from rc obtain k where k: "sem_eq (cython_steps k (initial_tm table n blank)) t"
    unfolding run_common_def by (elim conjE exE)
  have "sem_eq (cython_steps (Suc k) (initial_tm table n blank)) (snd (cython_step t))"
    unfolding cython_steps_Suc by (rule sem_eq_step[OF k])
  then have ex: "\<exists>k. sem_eq (cython_steps k (initial_tm table n blank)) (snd (cython_step t))"
    by (rule exI)
  have n0: "0 \<le> n" using st by simp
  have "0 \<le> current_state (snd (cython_step t)) \<and> current_state (snd (cython_step t)) \<le> n"
  proof (cases t rule: cython_step_geo)
    case (error e)
    then show ?thesis using st by simp
  next
    case halted
    then show ?thesis using n0 by (simp add: halted_stays)
  next
    case undefined
    then show ?thesis using n0 by simp
  next
    case (defined ns w mv)
    have "table (current_state t, read_cell t (head_position t)) = Some (ns, w, mv)"
      using defined(2) tab by simp
    from valid_entriesD[OF ve this] show ?thesis unfolding defined(3) using n0 by auto
  qed
  then show ?thesis unfolding run_common_def using tab f ex by simp
qed

lemma cyc_inv_initial: "cyc_inv 0 (initial_tm table n blank)"
  by (simp add: cyc_inv_def cyc_rec_def initial_tm_def)

lemma cyc_inv_step:
  assumes "cyc_inv 0 t" "current_state t \<noteq> HALT_STATE"
  shows "cyc_inv 1 (snd (cython_step t))"
  using cyc_rec_step[OF assms(1)[unfolded cyc_inv_def] assms(2)]
  unfolding cyc_inv_def by simp

lemma cyc_inv_sem:
  assumes "cyc_inv j t" "sem_eq t t'" "blank_symbol t' = blank_symbol t"
    "cycle_history t' = cycle_history t"
  shows "cyc_inv j t'"
  using cyc_rec_sem[OF assms(1)[unfolded cyc_inv_def] assms(2,3)]
  unfolding cyc_inv_def assms(4) .

lemma check_cycle_two_upd:
  "\<exists>hh. snd (check_cycle_two t) = t\<lparr>cycle_history := hh\<rparr>"
  unfolding check_cycle_two_def Let_def by (rule exI) simp

lemma esc_query:
  assumes rc: "run_common table n blank t" and inv: "esc_inv n t" and n1: "1 \<le> n"
    and ve: "valid_entries n table" and step: "cython_step t = (Inr v, s1)"
    and nh: "current_state t \<noteq> HALT_STATE"
    and t1: "t1 = s1\<lparr>cycle_history := hh\<rparr>"
    and q: "check_escapee t1 = (res, t2)"
  shows "res = Inr True \<Longrightarrow> never_halts t2"
    and "res = Inr False \<Longrightarrow> current_state t2 = HALT_STATE \<or> esc_inv n t2"
proof -
  define s2 where "s2 = snd (check_escapee s1)"
  have c: "check_escapee t1 = (fst (check_escapee s1), s2\<lparr>cycle_history := hh\<rparr>)"
    unfolding t1 s2_def by (rule check_escapee_cycle_history)
  have r: "res = fst (check_escapee s1)" and t2: "t2 = s2\<lparr>cycle_history := hh\<rparr>"
    using c q by simp_all
  have q': "check_escapee s1 = (res, s2)" unfolding r s2_def by simp
  note R = esc_round[OF rc inv n1 ve step nh q']
  show "never_halts t2" if "res = Inr True"
  proof -
    have "never_halts s2" using that by (rule R(1))
    moreover have "sem_eq s2 t2" unfolding t2 by simp
    ultimately show ?thesis by (rule never_halts_sem_eq[rotated])
  qed
  show "current_state t2 = HALT_STATE \<or> esc_inv n t2" if "res = Inr False"
    using R(2)[OF that] unfolding t2 by simp
qed

lemma run_common_check_escapee:
  assumes "run_common table n blank t"
  shows "run_common table n blank (snd (check_escapee t))"
proof (rule run_common_sem[OF assms])
  show "sem_eq t (snd (check_escapee t))" by (rule sem_eq_sym) (rule check_escapee_frame(1))
  show "num_states (snd (check_escapee t)) = n"
    using assms unfolding check_escapee_frame(3) run_common_def by simp
  show "blank_symbol (snd (check_escapee t)) = blank"
    using assms unfolding check_escapee_frame(2) run_common_def by simp
qed

lemma run_common_cycle_history:
  assumes "run_common table n blank t"
  shows "run_common table n blank (t\<lparr>cycle_history := hh\<rparr>)"
proof (rule run_common_sem[OF assms])
  show "sem_eq t (t\<lparr>cycle_history := hh\<rparr>)" by simp
  show "num_states (t\<lparr>cycle_history := hh\<rparr>) = n" using assms unfolding run_common_def by simp
  show "blank_symbol (t\<lparr>cycle_history := hh\<rparr>) = blank" using assms unfolding run_common_def by simp
qed

lemma cyc_inv_check_escapee:
  assumes "cyc_inv j t"
  shows "cyc_inv j (snd (check_escapee t))"
  by (rule cyc_inv_sem[OF assms sem_eq_sym[OF check_escapee_frame(1)] check_escapee_frame(2,4)])

lemma distinct_filters:
  assumes "distinct fs"
  shows "fs = [] \<or> fs = [EscapeeFilter] \<or> fs = [CycleTwoFilter] \<or>
         fs = [EscapeeFilter, CycleTwoFilter] \<or> fs = [CycleTwoFilter, EscapeeFilter]"
proof (cases fs)
  case Nil
  then show ?thesis by simp
next
  case (Cons a fs1)
  note c1 = Cons
  show ?thesis
  proof (cases fs1)
    case Nil
    then show ?thesis using c1 by (cases a) simp_all
  next
    case (Cons b fs2)
    note c2 = Cons
    show ?thesis
    proof (cases fs2)
      case Nil
      then show ?thesis using c1 c2 assms by (cases a; cases b) simp_all
    next
      case (Cons c fs3)
      then have "distinct [a, b, c]" using c1 c2 assms by simp
      then have False by (cases a; cases b; cases c) simp_all
      then show ?thesis ..
    qed
  qed
qed

lemma query_filters_E [consumes 1, case_names err hit miss]:
  assumes "query_filters (EscapeeFilter # fs) t1 = (q, t2)"
  obtains (err) e where "check_escapee t1 = (Inl e, t2)" "q = Inl e"
  | (hit) "check_escapee t1 = (Inr True, t2)" "q = Inr (Some Escapee)"
  | (miss) x where "check_escapee t1 = (Inr False, x)" "query_filters fs x = (q, t2)"
proof -
  obtain res x where ce: "check_escapee t1 = (res, x)" by (cases "check_escapee t1")
  show thesis
  proof (cases res)
    case (Inl e)
    then show ?thesis using assms ce err[of e] by simp
  next
    case (Inr b)
    show ?thesis
    proof (cases b)
      case True
      then show ?thesis using assms ce Inr hit by simp
    next
      case False
      then show ?thesis using assms ce Inr miss[of x] by simp
    qed
  qed
qed

lemma query_filters_C [consumes 1, case_names hit miss]:
  assumes "query_filters (CycleTwoFilter # fs) t1 = (q, t2)"
  obtains (hit) "check_cycle_two t1 = (True, t2)" "q = Inr (Some CycleTwo)"
  | (miss) x where "check_cycle_two t1 = (False, x)" "query_filters fs x = (q, t2)"
proof -
  obtain res x where ce: "check_cycle_two t1 = (res, x)" by (cases "check_cycle_two t1")
  show thesis
  proof (cases res)
    case True
    then show ?thesis using assms ce hit by simp
  next
    case False
    then show ?thesis using assms ce miss[of x] by simp
  qed
qed

lemma round_sound:
  assumes I: "run_inv fs table n blank t" and n1: "1 \<le> n" and ve: "valid_entries n table"
    and d: "distinct fs" and nh: "current_state t \<noteq> HALT_STATE"
    and step: "cython_step t = (Inr v, t1)" and qf: "query_filters fs t1 = (q, t2)"
  shows "q = Inr (Some r) \<Longrightarrow> never_halts t2"
    and "q = Inr None \<Longrightarrow> run_inv fs table n blank t2"
proof -
  have rc: "run_common table n blank t" using I unfolding run_inv_def by simp
  have t1: "t1 = snd (cython_step t)" using step by simp
  have rc1: "run_common table n blank t1" unfolding t1 by (rule run_common_step[OF rc ve])
  have einv: "esc_inv n t" if "EscapeeFilter \<in> set fs"
    using I nh that unfolding run_inv_def by simp
  have cinv: "cyc_inv 0 t" if "CycleTwoFilter \<in> set fs"
    using I nh that unfolding run_inv_def by simp
  have c1: "cyc_inv 1 t1" if "CycleTwoFilter \<in> set fs"
    unfolding t1 by (rule cyc_inv_step[OF cinv[OF that] nh])
  have id1: "t1 = t1\<lparr>cycle_history := cycle_history t1\<rparr>" by simp
  have main: "(q = Inr (Some r) \<longrightarrow> never_halts t2) \<and> (q = Inr None \<longrightarrow> run_inv fs table n blank t2)"
    using distinct_filters[OF d]
  proof (elim disjE)
    assume fs: "fs = []"
    then have "q = Inr None" "t2 = t1" using qf by simp_all
    then show ?thesis using rc1 unfolding run_inv_def fs by simp
  next
    assume fs: "fs = [EscapeeFilter]"
    have E: "esc_inv n t" by (rule einv) (simp add: fs)
    from qf[unfolded fs] show ?thesis
    proof (cases rule: query_filters_E)
      case (err e)
      then show ?thesis by simp
    next
      case hit
      have "never_halts t2" by (rule esc_query(1)[OF rc E n1 ve step nh id1 hit(1) refl])
      then show ?thesis using hit(2) by simp
    next
      case (miss x)
      have x: "x = t2" "q = Inr None" using miss(2) by simp_all
      have post: "current_state t2 = HALT_STATE \<or> esc_inv n t2"
        by (rule esc_query(2)[OF rc E n1 ve step nh id1 miss(1)[unfolded x] refl])
      have "run_common table n blank (snd (check_escapee t1))"
        by (rule run_common_check_escapee[OF rc1])
      then have "run_common table n blank t2" using miss(1) x by simp
      then show ?thesis using post x unfolding run_inv_def fs by auto
    qed
  next
    assume fs: "fs = [CycleTwoFilter]"
    have C: "cyc_inv 1 t1" by (rule c1) (simp add: fs)
    from qf[unfolded fs] show ?thesis
    proof (cases rule: query_filters_C)
      case hit
      from check_cycle_two_sound[OF C hit(1)] show ?thesis using hit(2) by simp
    next
      case (miss x)
      have x: "x = t2" "q = Inr None" using miss(2) by simp_all
      from check_cycle_two_upd[of t1] obtain hh where "t2 = t1\<lparr>cycle_history := hh\<rparr>"
        using miss(1) x by auto
      then have "run_common table n blank t2" using run_common_cycle_history[OF rc1] by simp
      moreover have "cyc_inv 0 t2" using check_cycle_two_sound[OF C miss(1)] x by simp
      ultimately show ?thesis using x unfolding run_inv_def fs by simp
    qed
  next
    assume fs: "fs = [EscapeeFilter, CycleTwoFilter]"
    have E: "esc_inv n t" by (rule einv) (simp add: fs)
    have C: "cyc_inv 1 t1" by (rule c1) (simp add: fs)
    from qf[unfolded fs] show ?thesis
    proof (cases rule: query_filters_E)
      case (err e)
      then show ?thesis by simp
    next
      case hit
      have "never_halts t2" by (rule esc_query(1)[OF rc E n1 ve step nh id1 hit(1) refl])
      then show ?thesis using hit(2) by simp
    next
      case (miss x)
      have xs: "x = snd (check_escapee t1)" using miss(1) by simp
      have post: "current_state x = HALT_STATE \<or> esc_inv n x"
        by (rule esc_query(2)[OF rc E n1 ve step nh id1 miss(1) refl])
      have rcx: "run_common table n blank x"
        unfolding xs by (rule run_common_check_escapee[OF rc1])
      have Cx: "cyc_inv 1 x" unfolding xs by (rule cyc_inv_check_escapee[OF C])
      from miss(2) show ?thesis
      proof (cases rule: query_filters_C)
        case hit
        from check_cycle_two_sound[OF Cx hit(1)] show ?thesis using hit(2) by simp
      next
        case m2: (miss y)
        have y: "y = t2" "q = Inr None" using m2(2) by simp_all
        from check_cycle_two_upd[of x] obtain hh where t2: "t2 = x\<lparr>cycle_history := hh\<rparr>"
          using m2(1) y by auto
        have "run_common table n blank t2" unfolding t2 by (rule run_common_cycle_history[OF rcx])
        moreover have "cyc_inv 0 t2" using check_cycle_two_sound[OF Cx m2(1)] y by simp
        moreover have "current_state t2 = HALT_STATE \<or> esc_inv n t2" using post unfolding t2 by simp
        ultimately show ?thesis using y unfolding run_inv_def fs by auto
      qed
    qed
  next
    assume fs: "fs = [CycleTwoFilter, EscapeeFilter]"
    have E: "esc_inv n t" by (rule einv) (simp add: fs)
    have C: "cyc_inv 1 t1" by (rule c1) (simp add: fs)
    from qf[unfolded fs] show ?thesis
    proof (cases rule: query_filters_C)
      case hit
      from check_cycle_two_sound[OF C hit(1)] show ?thesis using hit(2) by simp
    next
      case (miss x)
      from check_cycle_two_upd[of t1] obtain hh where x: "x = t1\<lparr>cycle_history := hh\<rparr>"
        using miss(1) by auto
      have rcx: "run_common table n blank x" unfolding x by (rule run_common_cycle_history[OF rc1])
      have Cx: "cyc_inv 0 x" using check_cycle_two_sound[OF C miss(1)] by simp
      from miss(2) show ?thesis
      proof (cases rule: query_filters_E)
        case (err e)
        then show ?thesis by simp
      next
        case hit
        have "never_halts t2" by (rule esc_query(1)[OF rc E n1 ve step nh x hit(1) refl])
        then show ?thesis using hit(2) by simp
      next
        case m2: (miss y)
        have y: "y = t2" "q = Inr None" using m2(2) by simp_all
        have t2s: "t2 = snd (check_escapee x)" using m2(1) y by simp
        have post: "current_state t2 = HALT_STATE \<or> esc_inv n t2"
          by (rule esc_query(2)[OF rc E n1 ve step nh x m2(1)[unfolded y] refl])
        have "run_common table n blank t2" unfolding t2s by (rule run_common_check_escapee[OF rcx])
        moreover have "cyc_inv 0 t2" unfolding t2s by (rule cyc_inv_check_escapee[OF Cx])
        ultimately show ?thesis using post y unfolding run_inv_def fs by auto
      qed
    qed
  qed
  show "q = Inr (Some r) \<Longrightarrow> never_halts t2" using main by simp
  show "q = Inr None \<Longrightarrow> run_inv fs table n blank t2" using main by simp
qed

lemma run_common_check_cycle_two:
  assumes "run_common table n blank t"
  shows "run_common table n blank (snd (check_cycle_two t))"
proof -
  from check_cycle_two_upd[of t] obtain hh where "snd (check_cycle_two t) = t\<lparr>cycle_history := hh\<rparr>"
    by (elim exE)
  then show ?thesis using run_common_cycle_history[OF assms] by simp
qed

lemma run_common_query_filters:
  "run_common table n blank t \<Longrightarrow> query_filters fs t = (q, t') \<Longrightarrow> run_common table n blank t'"
proof (induction fs arbitrary: t)
  case Nil
  then show ?case by simp
next
  case (Cons a fs)
  show ?case
  proof (cases a)
    case EscapeeFilter
    have rc: "run_common table n blank (snd (check_escapee t))"
      by (rule run_common_check_escapee[OF Cons.prems(1)])
    from Cons.prems(2)[unfolded EscapeeFilter] show ?thesis
    proof (cases rule: query_filters_E)
      case (err e)
      then show ?thesis using rc by simp
    next
      case hit
      then show ?thesis using rc by simp
    next
      case (miss x)
      have "run_common table n blank x" using rc miss(1) by simp
      then show ?thesis using miss(2) by (rule Cons.IH)
    qed
  next
    case CycleTwoFilter
    have rc: "run_common table n blank (snd (check_cycle_two t))"
      by (rule run_common_check_cycle_two[OF Cons.prems(1)])
    from Cons.prems(2)[unfolded CycleTwoFilter] show ?thesis
    proof (cases rule: query_filters_C)
      case hit
      then show ?thesis using rc by simp
    next
      case (miss x)
      have "run_common table n blank x" using rc miss(1) by simp
      then show ?thesis using miss(2) by (rule Cons.IH)
    qed
  qed
qed

lemma never_halts_back:
  assumes nv: "never_halts b" and se: "sem_eq (cython_steps k a) b"
  shows "never_halts a"
  unfolding never_halts_def
proof
  fix m
  have stay: "current_state (cython_steps (j + i) a) = HALT_STATE"
    if "current_state (cython_steps j a) = HALT_STATE" for i j
  proof (induction i)
    case 0
    then show ?case using that by simp
  next
    case (Suc i)
    have "cython_steps (j + Suc i) a = snd (cython_step (cython_steps (j + i) a))"
      by (simp add: cython_steps_Suc)
    then show ?case using halted_stays[OF Suc] by simp
  qed
  show "current_state (cython_steps m a) \<noteq> HALT_STATE"
  proof (cases "m \<le> k")
    case True
    show ?thesis
    proof
      assume "current_state (cython_steps m a) = HALT_STATE"
      from stay[OF this, of "k - m"] have "current_state (cython_steps k a) = HALT_STATE"
        using True by simp
      then have "current_state b = HALT_STATE" using se by (simp add: sem_eq_def)
      moreover have "current_state (cython_steps 0 b) \<noteq> HALT_STATE"
        using nv unfolding never_halts_def by (rule spec)
      ultimately show False by simp
    qed
  next
    case False
    then have m: "m = k + (m - k)" by simp
    have "cython_steps m a = cython_steps (m - k) (cython_steps k a)"
      by (subst m) (rule cython_steps_add)
    moreover have "sem_eq (cython_steps (m - k) (cython_steps k a)) (cython_steps (m - k) b)"
      by (rule sem_eq_steps[OF se])
    ultimately have "current_state (cython_steps m a) = current_state (cython_steps (m - k) b)"
      by (simp add: sem_eq_def)
    moreover have "current_state (cython_steps (m - k) b) \<noteq> HALT_STATE"
      using nv unfolding never_halts_def by (rule spec)
    ultimately show ?thesis by simp
  qed
qed

lemma run_sound_inv:
  assumes n1: "1 \<le> n" and ve: "valid_entries n table" and d: "distinct fs"
  shows "run_inv fs table n blank t \<Longrightarrow> run fs T t = (NonHalting r, t') \<Longrightarrow> r \<noteq> Timeout
           \<Longrightarrow> never_halts t' \<and> run_common table n blank t'"
proof (induction T arbitrary: t)
  case 0
  then show ?case by simp
next
  case (Suc T)
  have nh: "current_state t \<noteq> HALT_STATE" using Suc.prems(2) by auto
  obtain sr t1 where st: "cython_step t = (sr, t1)" by (cases "cython_step t")
  show ?case
  proof (cases sr)
    case (Inl e)
    then show ?thesis using Suc.prems(2) nh st by simp
  next
    case (Inr v)
    note step = st[unfolded Inr]
    have T0: "T \<noteq> 0" using Suc.prems(2,3) nh step by (cases "T = 0") auto
    obtain q t2 where qf: "query_filters fs t1 = (q, t2)" by (cases "query_filters fs t1")
    note R = round_sound[OF Suc.prems(1) n1 ve d nh step qf]
    show ?thesis
    proof (cases q)
      case e: (Inl e)
      then show ?thesis using Suc.prems(2) nh step T0 qf by simp
    next
      case qr: (Inr o1)
      show ?thesis
      proof (cases o1)
        case None
        have I2: "run_inv fs table n blank t2" using R(2) qr None by simp
        have "run fs T t2 = (NonHalting r, t')"
          using Suc.prems(2) nh step T0 qf qr None by simp
        from Suc.IH[OF I2 this Suc.prems(3)] show ?thesis .
      next
        case (Some r')
        have e: "r' = r" "t2 = t'" using Suc.prems(2) nh step T0 qf qr Some by simp_all
        have nv: "never_halts t'" using R(1)[of r'] qr Some e by simp
        have rc: "run_common table n blank t" using Suc.prems(1) unfolding run_inv_def by simp
        have "run_common table n blank (snd (cython_step t))" by (rule run_common_step[OF rc ve])
        then have rc1: "run_common table n blank t1" using step by simp
        have "run_common table n blank t2" by (rule run_common_query_filters[OF rc1 qf])
        then show ?thesis using nv e by simp
      qed
    qed
  qed
qed

lemma valid_entries_t_runner: "valid_entries 1 t_runner"
  by (auto simp: valid_entries_def t_runner_def valid_transition_def split: if_splits)

lemma run_t_runner:
  "\<exists>tm'. run [EscapeeFilter] 4 (initial_tm t_runner 1 ''0'') = (NonHalting Escapee, tm')"
  by (simp add: eval_nat_numeral initial_tm_def t_runner_def cython_step_def to_c_int_def
      INT_MIN_def INT_MAX_def tape_get_def check_escapee_def Let_def)

lemma graph_upd_eval:
  "Map.graph (m(k \<mapsto> v)) = insert (k, v) {p \<in> Map.graph m. fst p \<noteq> k}"
  by (auto simp: Map.graph_def split: if_splits)

lemma run_t_pingpong:
  "\<exists>tm'. run [EscapeeFilter, CycleTwoFilter] 5 (initial_tm t_pingpong 2 ''0'') = (NonHalting CycleTwo, tm')"
  by (simp add: eval_nat_numeral initial_tm_def t_pingpong_def cython_step_def to_c_int_def
      INT_MIN_def INT_MAX_def tape_get_def check_escapee_def check_cycle_two_def deque_append_def
      Let_def graph_upd_eval)

lemma valid_entries_t_pingpong: "valid_entries 2 t_pingpong"
  by (auto simp: valid_entries_def t_pingpong_def valid_transition_def split: if_splits)

section \<open>Soundness of the runtime filters\<close>

text \<open>
  C2. Let \<open>table\<close> be a transition table whose entries are valid for \<open>n \<ge> 1\<close> states
  (it need not be total), and let the simulator run from the initial blank-tape
  configuration, querying after each step the enabled filters \<open>fs\<close> (the escapee filter,
  the period-2 filter, or both in either order), so that \<^verbatim>\<open>check_escapee\<close> works on its
  accumulated seen-set and run counter and \<^verbatim>\<open>check_cycle_two\<close> on its accumulated history.
  If the run stops because one of the two filters returned True, then the machine object
  \<open>tm'\<close> at that moment is at a configuration reached from the initial one by repeated
  \<^verbatim>\<open>cython_step\<close>, and the machine never halts: no number of further calls of
  \<^verbatim>\<open>cython_step\<close> from that configuration brings it into the halt state, and none from
  the initial configuration does.
\<close>

theorem runtime_filter_soundness:
  assumes "1 \<le> n" and "valid_entries n table" and "distinct fs"
    and "run fs budget (initial_tm table n blank) = (NonHalting r, tm')"
    and "r = Escapee \<or> r = CycleTwo"
  shows "(\<exists>k. sem_eq (cython_steps k (initial_tm table n blank)) tm') \<and>
         never_halts tm' \<and> never_halts (initial_tm table n blank)"
proof -
  have I: "run_inv fs table n blank (initial_tm table n blank)"
    unfolding run_inv_def
  proof (intro conjI disjI2 impI)
    show "run_common table n blank (initial_tm table n blank)"
      by (rule run_common_initial[OF assms(1)])
    show "esc_inv n (initial_tm table n blank)"
      by (simp add: esc_inv_def initial_tm_def read_cell_def cell_of_def)
    show "cyc_inv 0 (initial_tm table n blank)" by (rule cyc_inv_initial)
  qed
  have r: "r \<noteq> Timeout" using assms(5) by auto
  from run_sound_inv[OF assms(1-3) I assms(4) r]
  have nv: "never_halts tm'" and rc: "run_common table n blank tm'" by simp_all
  from rc obtain k where k: "sem_eq (cython_steps k (initial_tm table n blank)) tm'"
    unfolding run_common_def by (elim conjE exE)
  have "never_halts (initial_tm table n blank)" by (rule never_halts_back[OF nv k])
  moreover have "\<exists>k. sem_eq (cython_steps k (initial_tm table n blank)) tm'" using k by (rule exI)
  ultimately show ?thesis using nv by simp
qed

theorem runtime_filter_soundness_witness:
  "fst (run [EscapeeFilter] 4 (initial_tm t_runner 1 ''0'')) = NonHalting Escapee \<and>
   never_halts (initial_tm t_runner 1 ''0'') \<and>
   fst (run [EscapeeFilter, CycleTwoFilter] 5 (initial_tm t_pingpong 2 ''0'')) = NonHalting CycleTwo \<and>
   never_halts (initial_tm t_pingpong 2 ''0'')"
proof -
  obtain tm1 where
    r1: "run [EscapeeFilter] 4 (initial_tm t_runner 1 ''0'') = (NonHalting Escapee, tm1)"
    using run_t_runner by (elim exE)
  obtain tm2 where
    r2: "run [EscapeeFilter, CycleTwoFilter] 5 (initial_tm t_pingpong 2 ''0'')
           = (NonHalting CycleTwo, tm2)"
    using run_t_pingpong by (elim exE)
  have "never_halts (initial_tm t_runner 1 ''0'')"
    using runtime_filter_soundness[of 1 t_runner "[EscapeeFilter]" 4 "''0''" Escapee tm1]
      valid_entries_t_runner r1 by simp
  moreover have "never_halts (initial_tm t_pingpong 2 ''0'')"
    using runtime_filter_soundness[of 2 t_pingpong "[EscapeeFilter, CycleTwoFilter]" 5 "''0''"
        CycleTwo tm2]
      valid_entries_t_pingpong r2 by simp
  ultimately show ?thesis using r1 r2 by simp
qed

section \<open>The history of the period-2 filter over a run\<close>

lemma config_of_cycle_history [simp]: "config_of (t\<lparr>cycle_history := hh\<rparr>) = config_of t"
  by (simp add: config_of_def)

lemma last_three:
  "deque_append 3 old x = drop (length old - 2) old @ [x]"
  by (simp add: deque_append_def)

lemma check_cycle_two_eq:
  "check_cycle_two t =
     (length (drop (length (case cycle_history t of None \<Rightarrow> [] | Some h \<Rightarrow> h) - 2)
                (case cycle_history t of None \<Rightarrow> [] | Some h \<Rightarrow> h) @ [config_of t]) = 3 \<and>
      (drop (length (case cycle_history t of None \<Rightarrow> [] | Some h \<Rightarrow> h) - 2)
                (case cycle_history t of None \<Rightarrow> [] | Some h \<Rightarrow> h) @ [config_of t]) ! 0 =
      (drop (length (case cycle_history t of None \<Rightarrow> [] | Some h \<Rightarrow> h) - 2)
                (case cycle_history t of None \<Rightarrow> [] | Some h \<Rightarrow> h) @ [config_of t]) ! 2,
      t\<lparr>cycle_history := Some (drop (length (case cycle_history t of None \<Rightarrow> [] | Some h \<Rightarrow> h) - 2)
                (case cycle_history t of None \<Rightarrow> [] | Some h \<Rightarrow> h) @ [config_of t])\<rparr>)"
  unfolding check_cycle_two_def Let_def last_three config_of_def ..

lemma cython_step_cycle_history:
  "cython_step (t\<lparr>cycle_history := hh\<rparr>) =
     (fst (cython_step t), (snd (cython_step t))\<lparr>cycle_history := hh\<rparr>)"
proof (cases "to_c_int (current_state t)")
  case (Inl e)
  then show ?thesis by (simp add: cython_step_def)
next
  case s: (Inr s)
  show ?thesis
  proof (cases "to_c_int (head_position t)")
    case (Inl e)
    then show ?thesis using s by (simp add: cython_step_def)
  next
    case h: (Inr h)
    show ?thesis
    proof (cases "s = 0")
      case True
      then show ?thesis using s h by (simp add: cython_step_def)
    next
      case False
      show ?thesis
      proof (cases "tape t h")
        case None
        show ?thesis
        proof (cases "transition_table t (s, blank_symbol t)")
          case n: None
          then show ?thesis using s h False None by (simp add: cython_step_def tape_get_def)
        next
          case (Some tr)
          obtain a b c where "tr = (a, b, c)" by (cases tr)
          then show ?thesis using s h False None Some
            by (simp add: cython_step_def tape_get_def Let_def)
        qed
      next
        case sy: (Some sy)
        show ?thesis
        proof (cases "transition_table t (s, sy)")
          case n: None
          then show ?thesis using s h False sy by (simp add: cython_step_def tape_get_def)
        next
          case (Some tr)
          obtain a b c where "tr = (a, b, c)" by (cases tr)
          then show ?thesis using s h False sy Some
            by (simp add: cython_step_def tape_get_def Let_def)
        qed
      qed
    qed
  qed
qed

lemma cycle_queries_steps:
  "cycle_queries j t = (cython_steps j t)\<lparr>cycle_history := cycle_history (cycle_queries j t)\<rparr>"
proof (induction j)
  case 0
  show ?case by simp
next
  case (Suc j)
  define H where "H = cycle_history (cycle_queries j t)"
  define X where "X = (cython_steps (Suc j) t)\<lparr>cycle_history := H\<rparr>"
  have "snd (cython_step (cycle_queries j t)) = snd (cython_step ((cython_steps j t)\<lparr>cycle_history := H\<rparr>))"
    unfolding H_def using Suc by simp
  also have "\<dots> = X"
    unfolding X_def cython_step_cycle_history cython_steps_Suc by simp
  finally have s: "snd (cython_step (cycle_queries j t)) = X" .
  have "\<exists>hh. snd (check_cycle_two X) = X\<lparr>cycle_history := hh\<rparr>" by (rule check_cycle_two_upd)
  then obtain hh where hh: "snd (check_cycle_two X) = X\<lparr>cycle_history := hh\<rparr>" by (elim exE)
  have c: "cycle_queries (Suc j) t = (cython_steps (Suc j) t)\<lparr>cycle_history := hh\<rparr>"
    using s hh unfolding X_def by simp
  have "cycle_history (cycle_queries (Suc j) t) = hh" by (subst c) simp
  then show ?case using c by simp
qed

lemma cycle_queries_config:
  "config_of (snd (cython_step (cycle_queries j t))) = config_of (cython_steps (Suc j) t)"
proof -
  have "snd (cython_step (cycle_queries j t)) =
        snd (cython_step ((cython_steps j t)\<lparr>cycle_history := cycle_history (cycle_queries j t)\<rparr>))"
    using cycle_queries_steps[of j t] by simp
  then show ?thesis unfolding cython_step_cycle_history cython_steps_Suc by simp
qed

lemma cycle_queries_Suc_history:
  "cycle_history (cycle_queries (Suc j) t) =
     Some (drop (length (case cycle_history (cycle_queries j t) of None \<Rightarrow> [] | Some h \<Rightarrow> h) - 2)
                (case cycle_history (cycle_queries j t) of None \<Rightarrow> [] | Some h \<Rightarrow> h)
           @ [config_of (cython_steps (Suc j) t)])"
proof -
  have "cycle_history (snd (cython_step (cycle_queries j t))) = cycle_history (cycle_queries j t)"
    by simp
  then show ?thesis
    unfolding cycle_queries.simps check_cycle_two_eq cycle_queries_config by simp
qed

lemma last_three_upt:
  assumes "1 \<le> j"
  shows "drop (length (map c [max 1 (j - 2) ..< Suc j]) - 2) (map c [max 1 (j - 2) ..< Suc j]) @ [c (Suc j)]
       = map c [max 1 (Suc j - 2) ..< Suc (Suc j)]"
proof -
  have a: "max 1 (j - 2) + (length (map c [max 1 (j - 2) ..< Suc j]) - 2) = max 1 (Suc j - 2)"
    using assms by (simp add: max_def)
  have b: "max 1 (Suc j - 2) \<le> Suc j" using assms by arith
  have "drop (length (map c [max 1 (j - 2) ..< Suc j]) - 2) (map c [max 1 (j - 2) ..< Suc j])
      = map c [max 1 (Suc j - 2) ..< Suc j]"
    unfolding drop_map drop_upt a ..
  moreover have "[max 1 (Suc j - 2) ..< Suc (Suc j)] = [max 1 (Suc j - 2) ..< Suc j] @ [Suc j]"
    using b by simp
  ultimately show ?thesis by simp
qed

lemma cycle_queries_history:
  assumes "cycle_history t = None" "1 \<le> j"
  shows "cycle_history (cycle_queries j t) =
           Some (map (\<lambda>i. config_of (cython_steps i t)) [max 1 (j - 2) ..< Suc j])"
  using assms(2)
proof (induction j)
  case 0
  then show ?case by simp
next
  case (Suc j)
  show ?case
  proof (cases "j = 0")
    case True
    have "cycle_history (cycle_queries 0 t) = None" using assms(1) by simp
    then have "cycle_history (cycle_queries (Suc 0) t) = Some [config_of (cython_steps (Suc 0) t)]"
      unfolding cycle_queries_Suc_history by simp
    then show ?thesis using True by simp
  next
    case False
    then have j: "1 \<le> j" by simp
    note IH = Suc.IH[OF j]
    show ?thesis
      unfolding cycle_queries_Suc_history IH option.case
      using last_three_upt[OF j, of "\<lambda>i. config_of (cython_steps i t)"] by simp
  qed
qed

lemma check_cycle_two_verdict:
  "fst (check_cycle_two t) =
     (case cycle_history (snd (check_cycle_two t)) of None \<Rightarrow> False
      | Some h \<Rightarrow> length h = 3 \<and> h ! 0 = h ! 2)"
  unfolding check_cycle_two_eq by simp

lemma upt_window_length:
  assumes "1 \<le> j"
  shows "(length [max 1 (j - 2) ..< Suc j] = 3) = (3 \<le> j)"
  using assms by (auto simp: max_def)

lemma upt_window_nth:
  assumes "3 \<le> j"
  shows "[max 1 (j - 2) ..< Suc j] ! 0 = j - 2" "[max 1 (j - 2) ..< Suc j] ! 2 = j"
proof -
  have m: "max 1 (j - 2) = j - 2" using assms by simp
  show "[max 1 (j - 2) ..< Suc j] ! 0 = j - 2" unfolding m using assms by (subst nth_upt) simp_all
  show "[max 1 (j - 2) ..< Suc j] ! 2 = j" unfolding m using assms by (subst nth_upt) simp_all
qed

lemma cycle_queries_verdict:
  assumes "cycle_history t = None" "1 \<le> j"
  shows "fst (check_cycle_two (snd (cython_step (cycle_queries (j - 1) t)))) =
           (3 \<le> j \<and> config_of (cython_steps (j - 2) t) = config_of (cython_steps j t))"
proof -
  let ?c = "\<lambda>i. config_of (cython_steps i t)"
  let ?w = "[max 1 (j - 2) ..< Suc j]"
  obtain k where j: "j = Suc k" using assms(2) by (cases j) simp_all
  have q: "snd (check_cycle_two (snd (cython_step (cycle_queries (j - 1) t)))) = cycle_queries j t"
    unfolding j by simp
  have h: "cycle_history (cycle_queries j t) = Some (map ?c ?w)"
    by (rule cycle_queries_history[OF assms])
  have v: "fst (check_cycle_two (snd (cython_step (cycle_queries (j - 1) t)))) =
        (length (map ?c ?w) = 3 \<and> map ?c ?w ! 0 = map ?c ?w ! 2)"
    unfolding check_cycle_two_verdict q h by simp
  show ?thesis
  proof (cases "3 \<le> j")
    case True
    have l: "length ?w = 3" using upt_window_length[OF assms(2)] True by simp
    have "map ?c ?w ! 0 = ?c (?w ! 0)" "map ?c ?w ! 2 = ?c (?w ! 2)"
      using l by (simp_all del: upt_Suc)
    then show ?thesis unfolding v using l True upt_window_nth[OF True] by (simp del: upt_Suc)
  next
    case False
    then have "length ?w \<noteq> 3" using upt_window_length[OF assms(2)] by simp
    then show ?thesis unfolding v using False by (simp del: upt_Suc)
  qed
qed

lemma pingpong_step1:
  "cython_steps 1 (initial_tm t_pingpong 2 ''0'') =
     \<lparr>current_state = 2, transition_table = t_pingpong, tape = [0 \<mapsto> ''1''], head_position = 1,
      blank_symbol = ''0'', min_visited = 0, max_visited = 1, steps_taken = 1,
      num_states = 2, escapee_seen_positions = None, escapee_blank_run_count = 0,
      cycle_history = None\<rparr>"
  by (simp add: cython_steps_def initial_tm_def cython_step_def to_c_int_def INT_MIN_def
      INT_MAX_def tape_get_def t_pingpong_def)

lemma pingpong_step2:
  "cython_steps 2 (initial_tm t_pingpong 2 ''0'') =
     \<lparr>current_state = 1, transition_table = t_pingpong, tape = [0 \<mapsto> ''1'', 1 \<mapsto> ''0''],
      head_position = 0,
      blank_symbol = ''0'', min_visited = 0, max_visited = 1, steps_taken = 2,
      num_states = 2, escapee_seen_positions = None, escapee_blank_run_count = 0,
      cycle_history = None\<rparr>"
proof -
  have "cython_steps 2 (initial_tm t_pingpong 2 ''0'') =
        snd (cython_step (cython_steps 1 (initial_tm t_pingpong 2 ''0'')))"
    using cython_steps_Suc[of 1] by (simp add: numeral_2_eq_2)
  then show ?thesis unfolding pingpong_step1
    by (simp add: cython_step_def to_c_int_def INT_MIN_def INT_MAX_def tape_get_def t_pingpong_def)
qed

lemma pingpong_step3:
  "cython_steps 3 (initial_tm t_pingpong 2 ''0'') =
     \<lparr>current_state = 2, transition_table = t_pingpong, tape = [1 \<mapsto> ''0'', 0 \<mapsto> ''1''],
      head_position = 1,
      blank_symbol = ''0'', min_visited = 0, max_visited = 1, steps_taken = 3,
      num_states = 2, escapee_seen_positions = None, escapee_blank_run_count = 0,
      cycle_history = None\<rparr>"
proof -
  have "cython_steps 3 (initial_tm t_pingpong 2 ''0'') =
        snd (cython_step (cython_steps 2 (initial_tm t_pingpong 2 ''0'')))"
    using cython_steps_Suc[of 2] by (simp add: numeral_3_eq_3 numeral_2_eq_2)
  then show ?thesis unfolding pingpong_step2
    by (simp add: cython_step_def to_c_int_def INT_MIN_def INT_MAX_def tape_get_def t_pingpong_def)
qed

lemma pingpong_step4:
  "cython_steps 4 (initial_tm t_pingpong 2 ''0'') =
     \<lparr>current_state = 1, transition_table = t_pingpong, tape = [0 \<mapsto> ''1'', 1 \<mapsto> ''0''],
      head_position = 0,
      blank_symbol = ''0'', min_visited = 0, max_visited = 1, steps_taken = 4,
      num_states = 2, escapee_seen_positions = None, escapee_blank_run_count = 0,
      cycle_history = None\<rparr>"
proof -
  have "cython_steps 4 (initial_tm t_pingpong 2 ''0'') =
        snd (cython_step (cython_steps 3 (initial_tm t_pingpong 2 ''0'')))"
    using cython_steps_Suc[of 3] by (simp add: eval_nat_numeral)
  then show ?thesis unfolding pingpong_step3
    by (simp add: cython_step_def to_c_int_def INT_MIN_def INT_MAX_def tape_get_def t_pingpong_def)
qed

lemma graph_one: "Map.graph [k \<mapsto> v] = {(k, v)}"
  by (auto simp: Map.graph_def split: if_splits)

lemma graph_two: "k \<noteq> k' \<Longrightarrow> Map.graph [k \<mapsto> v, k' \<mapsto> v'] = {(k, v), (k', v')}"
  by (auto simp: Map.graph_def split: if_splits)

lemma pingpong_configs:
  "config_of (cython_steps 1 (initial_tm t_pingpong 2 ''0'')) = (2, 1, {(0, ''1'')})"
  "config_of (cython_steps 2 (initial_tm t_pingpong 2 ''0'')) = (1, 0, {(0, ''1''), (1, ''0'')})"
  "config_of (cython_steps 3 (initial_tm t_pingpong 2 ''0'')) = (2, 1, {(0, ''1''), (1, ''0'')})"
  "config_of (cython_steps 4 (initial_tm t_pingpong 2 ''0'')) = (1, 0, {(0, ''1''), (1, ''0'')})"
  unfolding pingpong_step1 pingpong_step2 pingpong_step3 pingpong_step4
  by (simp_all add: config_of_def graph_one graph_two insert_commute)

section \<open>Behaviour of the period-2 filter\<close>

text \<open>
  C5, as amended. \<^verbatim>\<open>check_cycle_two\<close> appends the configuration
  \<open>(state, head, tape_snapshot)\<close> of the machine to its history and keeps the last three
  entries: the new history is the last two entries of the old one (all of it when it
  holds fewer) followed by the new configuration. It returns True exactly when the new
  history holds three configurations and the first equals the third. The snapshot is
  the set of the stored items of the tape, so two configurations are equal exactly when
  the state, the head position and the stored items agree; machines with the same blank
  symbol and equal configurations have the same content in every cell. Queried after
  each step on an object that has no history yet, the filter holds after the \<open>j\<close>-th
  query the configurations after the steps \<open>max 1 (j - 2), \<dots>, j\<close> and has changed
  nothing else of the object, and the \<open>j\<close>-th query returns True exactly when \<open>j \<ge> 3\<close>
  and the configuration after step \<open>j - 2\<close> equals the one after step \<open>j\<close>.
\<close>

theorem check_cycle_two_behaviour:
  "(let old = (case cycle_history tm_obj of None \<Rightarrow> [] | Some h \<Rightarrow> h);
        history = drop (length old - 2) old @ [config_of tm_obj]
    in check_cycle_two tm_obj =
         (length history = 3 \<and> history ! 0 = history ! 2, tm_obj\<lparr>cycle_history := Some history\<rparr>) \<and>
       length history \<le> 3) \<and>
   (config_of tm2 = config_of tm_obj) =
     (current_state tm2 = current_state tm_obj \<and> head_position tm2 = head_position tm_obj \<and>
      tape tm2 = tape tm_obj) \<and>
   (blank_symbol tm2 = blank_symbol tm_obj \<and> config_of tm2 = config_of tm_obj \<longrightarrow>
      (\<forall>c. read_cell tm2 c = read_cell tm_obj c)) \<and>
   (cycle_history tm0 = None \<and> 1 \<le> j \<longrightarrow>
      cycle_queries j tm0 =
        (cython_steps j tm0)\<lparr>cycle_history :=
           Some (map (\<lambda>i. config_of (cython_steps i tm0)) [max 1 (j - 2) ..< Suc j])\<rparr> \<and>
      fst (check_cycle_two (snd (cython_step (cycle_queries (j - 1) tm0)))) =
        (3 \<le> j \<and> config_of (cython_steps (j - 2) tm0) = config_of (cython_steps j tm0)))"
proof -
  have 1: "(let old = (case cycle_history tm_obj of None \<Rightarrow> [] | Some h \<Rightarrow> h);
        history = drop (length old - 2) old @ [config_of tm_obj]
    in check_cycle_two tm_obj =
         (length history = 3 \<and> history ! 0 = history ! 2, tm_obj\<lparr>cycle_history := Some history\<rparr>) \<and>
       length history \<le> 3)"
    unfolding Let_def
  proof (rule conjI)
    show "check_cycle_two tm_obj =
      (length (drop (length (case cycle_history tm_obj of None \<Rightarrow> [] | Some h \<Rightarrow> h) - 2)
                (case cycle_history tm_obj of None \<Rightarrow> [] | Some h \<Rightarrow> h) @ [config_of tm_obj]) = 3 \<and>
      (drop (length (case cycle_history tm_obj of None \<Rightarrow> [] | Some h \<Rightarrow> h) - 2)
                (case cycle_history tm_obj of None \<Rightarrow> [] | Some h \<Rightarrow> h) @ [config_of tm_obj]) ! 0 =
      (drop (length (case cycle_history tm_obj of None \<Rightarrow> [] | Some h \<Rightarrow> h) - 2)
                (case cycle_history tm_obj of None \<Rightarrow> [] | Some h \<Rightarrow> h) @ [config_of tm_obj]) ! 2,
      tm_obj\<lparr>cycle_history := Some (drop (length (case cycle_history tm_obj of None \<Rightarrow> [] | Some h \<Rightarrow> h) - 2)
                (case cycle_history tm_obj of None \<Rightarrow> [] | Some h \<Rightarrow> h) @ [config_of tm_obj])\<rparr>)"
      unfolding check_cycle_two_def Let_def config_of_def by (simp add: deque_append_def)
    show "length (drop (length (case cycle_history tm_obj of None \<Rightarrow> [] | Some h \<Rightarrow> h) - 2)
                (case cycle_history tm_obj of None \<Rightarrow> [] | Some h \<Rightarrow> h) @ [config_of tm_obj]) \<le> 3"
      by simp
  qed
  have g: "(Map.graph (tape tm2) = Map.graph (tape tm_obj)) = (tape tm2 = tape tm_obj)"
  proof
    assume "Map.graph (tape tm2) = Map.graph (tape tm_obj)"
    then show "tape tm2 = tape tm_obj" by (rule graph_eq_imp_eq)
  next
    assume "tape tm2 = tape tm_obj"
    then show "Map.graph (tape tm2) = Map.graph (tape tm_obj)" by simp
  qed
  have 2: "(config_of tm2 = config_of tm_obj) =
     (current_state tm2 = current_state tm_obj \<and> head_position tm2 = head_position tm_obj \<and>
      tape tm2 = tape tm_obj)"
    unfolding config_of_def using g by simp
  have 3: "blank_symbol tm2 = blank_symbol tm_obj \<and> config_of tm2 = config_of tm_obj \<longrightarrow>
      (\<forall>c. read_cell tm2 c = read_cell tm_obj c)"
    unfolding 2 by (simp add: read_cell_def)
  have 4: "cycle_history tm0 = None \<and> 1 \<le> j \<longrightarrow>
      cycle_queries j tm0 =
        (cython_steps j tm0)\<lparr>cycle_history :=
           Some (map (\<lambda>i. config_of (cython_steps i tm0)) [max 1 (j - 2) ..< Suc j])\<rparr> \<and>
      fst (check_cycle_two (snd (cython_step (cycle_queries (j - 1) tm0)))) =
        (3 \<le> j \<and> config_of (cython_steps (j - 2) tm0) = config_of (cython_steps j tm0))"
  proof (intro impI, elim conjE, rule conjI)
    assume a: "cycle_history tm0 = None" "1 \<le> j"
    show "cycle_queries j tm0 =
        (cython_steps j tm0)\<lparr>cycle_history :=
           Some (map (\<lambda>i. config_of (cython_steps i tm0)) [max 1 (j - 2) ..< Suc j])\<rparr>"
      using cycle_queries_steps[of j tm0] unfolding cycle_queries_history[OF a] .
    show "fst (check_cycle_two (snd (cython_step (cycle_queries (j - 1) tm0)))) =
        (3 \<le> j \<and> config_of (cython_steps (j - 2) tm0) = config_of (cython_steps j tm0))"
      by (rule cycle_queries_verdict[OF a])
  qed
  show ?thesis using 1 2 3 4 by (intro conjI)
qed

theorem check_cycle_two_behaviour_witness:
  "check_cycle_two tm_cycle_example =
     (True, tm_cycle_example\<lparr>cycle_history := Some [(1, 0, {}), (2, 1, {}), (1, 0, {})]\<rparr>) \<and>
   cycle_history (cycle_queries 4 (initial_tm t_pingpong 2 ''0'')) =
     Some [(1, 0, {(0, ''1''), (1, ''0'')}), (2, 1, {(0, ''1''), (1, ''0'')}),
           (1, 0, {(0, ''1''), (1, ''0'')})] \<and>
   fst (check_cycle_two (snd (cython_step (cycle_queries 3 (initial_tm t_pingpong 2 ''0''))))) = True \<and>
   (\<forall>c. read_cell (initial_tm t_pingpong 2 ''0'') c = read_cell tm_cycle_example c)"
proof -
  note T = check_cycle_two_behaviour[of tm_cycle_example "initial_tm t_pingpong 2 ''0''"
      "initial_tm t_pingpong 2 ''0''" 4]
  have c0: "config_of tm_cycle_example = (1, 0, {})"
    "config_of (initial_tm t_pingpong 2 ''0'') = (1, 0, {})"
    by (simp_all add: config_of_def tm_cycle_example_def initial_tm_def)
  have h0: "cycle_history tm_cycle_example = Some [(2, 1, {}), (1, 0, {}), (2, 1, {})]"
    "blank_symbol (initial_tm t_pingpong 2 ''0'') = blank_symbol tm_cycle_example"
    "cycle_history (initial_tm t_pingpong 2 ''0'') = None"
    by (simp_all add: tm_cycle_example_def initial_tm_def)
  have w: "[max 1 (4 - 2) ..< Suc 4] = [2, 3, 4::nat]" by (simp add: upt_rec)
  from T have a: "check_cycle_two tm_cycle_example =
     (True, tm_cycle_example\<lparr>cycle_history := Some [(1, 0, {}), (2, 1, {}), (1, 0, {})]\<rparr>)"
    unfolding Let_def h0 c0 by simp
  have e: "deque_append 3 [(2, 1, {}), (1, 0, {}), (2, 1, {})] (1, 0, {}) =
             [(1::int, 0::int, {}::(int \<times> string) set), (2, 1, {}), (1, 0, {})]"
    by (simp add: deque_append_def)
  have a': "snd (check_cycle_two tm_cycle_example) =
       tm_cycle_example\<lparr>cycle_history := Some [(1, 0, {}), (2, 1, {}), (1, 0, {})]\<rparr>"
    unfolding check_cycle_two_def Let_def h0 using e c0(1) by (simp add: config_of_def)
  from T have b: "\<forall>c. read_cell (initial_tm t_pingpong 2 ''0'') c = read_cell tm_cycle_example c"
    using h0(2) c0 by simp
  from T h0(3) have c: "cycle_queries 4 (initial_tm t_pingpong 2 ''0'') =
        (cython_steps 4 (initial_tm t_pingpong 2 ''0''))\<lparr>cycle_history :=
           Some (map (\<lambda>i. config_of (cython_steps i (initial_tm t_pingpong 2 ''0''))) [2, 3, 4])\<rparr>"
    and d: "fst (check_cycle_two (snd (cython_step (cycle_queries (4 - 1) (initial_tm t_pingpong 2 ''0''))))) =
        (3 \<le> (4::nat) \<and> config_of (cython_steps (4 - 2) (initial_tm t_pingpong 2 ''0'')) =
           config_of (cython_steps 4 (initial_tm t_pingpong 2 ''0'')))"
    unfolding w by simp_all
  have c': "cycle_history (cycle_queries 4 (initial_tm t_pingpong 2 ''0'')) =
     Some [(1, 0, {(0, ''1''), (1, ''0'')}), (2, 1, {(0, ''1''), (1, ''0'')}),
           (1, 0, {(0, ''1''), (1, ''0'')})]"
    by (subst c) (simp add: pingpong_configs)
  have d': "fst (check_cycle_two (snd (cython_step (cycle_queries 3 (initial_tm t_pingpong 2 ''0''))))) = True"
    using d by (simp add: pingpong_configs)
  show ?thesis using a a' b c' d' by (intro conjI)
qed

text \<open>
  The snapshot is not the content of the cells \<open>min_visited..max_visited\<close>: on the
  ping-pong machine the third query finds a history of three configurations whose first
  and third agree on the state, the head position, the visited range and the content
  of every cell, and returns False, because the blank symbol has meanwhile been stored
  at the cell \<open>1\<close>.
\<close>

theorem check_cycle_two_counterexample:
  "cycle_history (cycle_queries 3 (initial_tm t_pingpong 2 ''0'')) =
     Some [(2, 1, {(0, ''1'')}), (1, 0, {(0, ''1''), (1, ''0'')}), (2, 1, {(0, ''1''), (1, ''0'')})] \<and>
   fst (check_cycle_two (snd (cython_step (cycle_queries 2 (initial_tm t_pingpong 2 ''0''))))) = False \<and>
   current_state (cython_steps 1 (initial_tm t_pingpong 2 ''0'')) =
     current_state (cython_steps 3 (initial_tm t_pingpong 2 ''0'')) \<and>
   head_position (cython_steps 1 (initial_tm t_pingpong 2 ''0'')) =
     head_position (cython_steps 3 (initial_tm t_pingpong 2 ''0'')) \<and>
   min_visited (cython_steps 1 (initial_tm t_pingpong 2 ''0'')) =
     min_visited (cython_steps 3 (initial_tm t_pingpong 2 ''0'')) \<and>
   max_visited (cython_steps 1 (initial_tm t_pingpong 2 ''0'')) =
     max_visited (cython_steps 3 (initial_tm t_pingpong 2 ''0'')) \<and>
   (\<forall>c. read_cell (cython_steps 1 (initial_tm t_pingpong 2 ''0'')) c =
        read_cell (cython_steps 3 (initial_tm t_pingpong 2 ''0'')) c)"
proof -
  have n: "cycle_history (initial_tm t_pingpong 2 ''0'') = None" by (simp add: initial_tm_def)
  have w: "[max 1 (3 - 2) ..< Suc 3] = [1, 2, 3::nat]" by (simp add: upt_rec)
  have 1: "cycle_history (cycle_queries 3 (initial_tm t_pingpong 2 ''0'')) =
     Some [(2, 1, {(0, ''1'')}), (1, 0, {(0, ''1''), (1, ''0'')}), (2, 1, {(0, ''1''), (1, ''0'')})]"
    using cycle_queries_history[OF n, of 3] unfolding w
    by (simp add: pingpong_configs pingpong_configs(1)[unfolded One_nat_def])
  have 2: "fst (check_cycle_two (snd (cython_step (cycle_queries 2 (initial_tm t_pingpong 2 ''0''))))) = False"
    using cycle_queries_verdict[OF n, of 3]
    by (simp add: pingpong_configs pingpong_configs(1)[unfolded One_nat_def])
  have 3: "\<forall>c. read_cell (cython_steps 1 (initial_tm t_pingpong 2 ''0'')) c =
        read_cell (cython_steps 3 (initial_tm t_pingpong 2 ''0'')) c"
    unfolding pingpong_step1 pingpong_step3 by (simp add: read_cell_def cell_of_def)
  show ?thesis
    using 1 2 3 unfolding pingpong_step1 pingpong_step3 by simp
qed

end
